theory Spec2Isabelle
  imports Complex_Main "HOL-Library.Word"
begin

unbundle bit_operations_syntax

section \<open>SmartRunner: a PTY supervisor with a pause/resume handshake\<close>

text \<open>
  This theory embeds \<^verbatim>\<open>scripts/runner.py\<close> (class \<^verbatim>\<open>SmartRunner\<close>).
  The object's fields and the part of the outside world the methods touch (the wall
  clock, the runner directory, the console, the PTY master's input side, the calls of
  the intervention CLI) form one record that every method takes and returns.

  Conventions of the model:
  \<^item> Python \<^verbatim>\<open>str\<close> values produced by decoding bytes are lists of Unicode code points
    (\<open>ustr\<close>); the program's own literals, paths and identifiers are \<open>string\<close>.
  \<^item> \<^verbatim>\<open>time.time()\<close> reads the field \<open>clock\<close>. The blocking calls
    (\<^verbatim>\<open>select\<close> with its timeout, \<^verbatim>\<open>time.sleep\<close>) advance it, and so does the
    work of an iteration of the pause loop, by the time its event gives; Python floats
    are taken as reals.
  \<^item> What the environment does (the child writing to the PTY, the intervention agent
    writing the status file, a writer on the input pipe) is given as a list of events, one
    per loop iteration. A loop whose events run out before it leaves is \<open>Pending\<close>:
    it is still inside the loop, in the state shown.
  \<^item> Files are entries of the runner directory. Outside \<^verbatim>\<open>setup_dirs\<close> the
    directory exists and \<^verbatim>\<open>status.json\<close> and \<^verbatim>\<open>output.log\<close> are regular files
    or absent, so the supervisor's own writes to them succeed; the log file holds text
    only, since nothing but \<^verbatim>\<open>log_output\<close> writes it.
  \<^item> The exceptions of the model are the ones the source handles: \<^verbatim>\<open>OSError\<close> from
    \<^verbatim>\<open>os.read\<close>, a failing read of the status record, a failing \<^verbatim>\<open>open\<close>, read
    or encode in the input gate, a failing call of the intervention CLI (whose message
    is printed without the exception's text). A failing \<^verbatim>\<open>select\<close>, a failing
    write to the console or to a file, and \<^verbatim>\<open>KeyboardInterrupt\<close> are not part of it.
  \<^item> The main loop and the input gate run in two threads; each is modelled on its own,
    acting on the same record.
\<close>

subsection \<open>Data\<close>

type_synonym byte = "8 word"
type_synonym ustr = "nat list"

datatype json =
    JNull
  | JBool bool
  | JInt int
  | JReal real
  | JStr string
  | JArr "json list"
  | JObj "(string \<times> json) list"

text \<open>
  A regular file holds either the JSON text of a value (\<open>Doc\<close>) or other text
  (\<open>Text\<close>, which \<^verbatim>\<open>json.load\<close> followed by \<^verbatim>\<open>.get\<close> rejects; the empty
  file is \<open>Text []\<close>).
\<close>

datatype content = Doc json | Text ustr

datatype node = File content | Fifo "32 word" | Dir

datatype out =
    Write ustr
  | Print string
  | PrintInjected ustr
  | PrintGateError

datatype 'a outcome = Returned 'a | Pending 'a

record runner =
  cmd :: string
  working_dir :: string
  cron_id :: "string option"
  process :: "int option"
  master_fd :: "int option"
  running :: bool
  last_activity_time :: real
  last_log_chunk :: ustr
  state :: string
  clock :: real
  runner_pid :: int
  umask :: "32 word"
  runner_dir :: "(string \<rightharpoonup> node) option"
  console :: "out list"
  openclaw_fails :: bool
  openclaw :: "string list list"
  pty_in :: "byte list"
  killpg :: "int list"

definition STALL_TIMEOUT :: real where
  "STALL_TIMEOUT = 30"

definition IO_WAIT_TIMEOUT :: real where
  "IO_WAIT_TIMEOUT = 2"

subsection \<open>Paths and files\<close>

definition path_join :: "string \<Rightarrow> string \<Rightarrow> string" where
  "path_join a b =
     (if a = [] then b
      else if last a = CHR ''/'' then a @ b
      else a @ ''/'' @ b)"

definition runner_dir_path :: "runner \<Rightarrow> string" where
  "runner_dir_path w = path_join (working_dir w) ''.runner''"

definition input_pipe :: "runner \<Rightarrow> string" where
  "input_pipe w = path_join (runner_dir_path w) ''input.pipe''"

definition status_file :: string where
  "status_file = ''status.json''"

definition log_file :: string where
  "log_file = ''output.log''"

definition pid_file :: string where
  "pid_file = ''runner.pid''"

definition pipe_file :: string where
  "pipe_file = ''input.pipe''"

definition entries :: "runner \<Rightarrow> string \<rightharpoonup> node" where
  "entries w = (case runner_dir w of None \<Rightarrow> Map.empty | Some d \<Rightarrow> d)"

text \<open>\<^verbatim>\<open>open(path, 'w')\<close> creates the file or truncates it to length zero.\<close>

definition open_w :: "string \<Rightarrow> runner \<Rightarrow> runner" where
  "open_w name w = w\<lparr>runner_dir := Some ((entries w)(name \<mapsto> File (Text [])))\<rparr>"

text \<open>\<^verbatim>\<open>json.dump(data, f)\<close> followed by the close of the \<^verbatim>\<open>with\<close> block.\<close>

definition json_dump :: "string \<Rightarrow> json \<Rightarrow> runner \<Rightarrow> runner" where
  "json_dump name j w = w\<lparr>runner_dir := Some ((entries w)(name \<mapsto> File (Doc j)))\<rparr>"

definition write_text :: "string \<Rightarrow> ustr \<Rightarrow> runner \<Rightarrow> runner" where
  "write_text name t w = w\<lparr>runner_dir := Some ((entries w)(name \<mapsto> File (Text t)))\<rparr>"

text \<open>\<^verbatim>\<open>json.load\<close> on the file: \<open>None\<close> is the exception it raises.\<close>

definition json_load :: "string \<Rightarrow> runner \<Rightarrow> json option" where
  "json_load name w =
     (case entries w name of
        Some (File (Doc j)) \<Rightarrow> Some j
      | _ \<Rightarrow> None)"

subsection \<open>update\_status and log\_output\<close>

text \<open>
  An optional entry of the record: \<^verbatim>\<open>if reason: data["reason"] = reason\<close> adds the key
  only for a value that is neither \<^verbatim>\<open>None\<close> nor the empty string.
\<close>

definition optional_entry :: "string \<Rightarrow> string option \<Rightarrow> (string \<times> json) list" where
  "optional_entry key v =
     (case v of
        None \<Rightarrow> []
      | Some t \<Rightarrow> if t = [] then [] else [(key, JStr t)])"

definition status_data :: "string \<Rightarrow> string option \<Rightarrow> string option \<Rightarrow> runner \<Rightarrow> json" where
  "status_data st reason info w =
     JObj ([(''state'', JStr st),
            (''updated_at'', JReal (clock w)),
            (''runner_pid'', JInt (runner_pid w)),
            (''child_pid'', (case process w of None \<Rightarrow> JNull | Some p \<Rightarrow> JInt p)),
            (''cmd'', JStr (cmd w)),
            (''input_pipe'', JStr (input_pipe w))]
           @ optional_entry ''reason'' reason
           @ optional_entry ''info'' info)"

definition update_status :: "string \<Rightarrow> string option \<Rightarrow> string option \<Rightarrow> runner \<Rightarrow> runner" where
  "update_status st reason info w =
     (let w1 = w\<lparr>state := st\<rparr>;
          data = status_data st reason info w1
      in json_dump status_file data (open_w status_file w1))"

text \<open>
  The states that exist, one after the other, while \<^verbatim>\<open>update_status\<close> runs:
  the file as \<^verbatim>\<open>open(..., 'w')\<close> leaves it; then, for a record whose JSON text
  is larger than the buffer of the file object, the file with each proper prefix of the
  text that a flush of the buffer puts on disk while \<^verbatim>\<open>json.dump\<close> is writing its
  chunks; then the file as the close leaves it. The prefixes depend on the length of
  the text and on the buffer's size and are given from outside (\<open>partial\<close>, empty for
  a record that fits the buffer); a proper prefix of the JSON text of an object is not
  JSON, so it is \<open>Text\<close>.
\<close>

definition update_status_steps ::
  "string \<Rightarrow> string option \<Rightarrow> string option \<Rightarrow> ustr list \<Rightarrow> runner \<Rightarrow> runner list" where
  "update_status_steps st reason info partial w =
     (let w1 = w\<lparr>state := st\<rparr>;
          data = status_data st reason info w1;
          w2 = open_w status_file w1
      in [w2] @ map (\<lambda>p. write_text status_file p w2) partial
         @ [json_dump status_file data w2])"

definition update_status_contents ::
  "string \<Rightarrow> string option \<Rightarrow> string option \<Rightarrow> ustr list \<Rightarrow> runner \<Rightarrow> node option list" where
  "update_status_contents st reason info partial w =
     map (\<lambda>v. entries v status_file) (update_status_steps st reason info partial w)"

definition log_output :: "ustr \<Rightarrow> runner \<Rightarrow> runner" where
  "log_output text w =
     (case entries w log_file of
        Some (File (Text old)) \<Rightarrow> write_text log_file (old @ text) w
      | _ \<Rightarrow> write_text log_file text w)"

definition print :: "string \<Rightarrow> runner \<Rightarrow> runner" where
  "print s w = w\<lparr>console := console w @ [Print s]\<rparr>"

definition run_openclaw_cmd :: "string list \<Rightarrow> runner \<Rightarrow> runner" where
  "run_openclaw_cmd args w =
     (if openclaw_fails w then print ''[Runner] Error running openclaw cmd'' w
      else w\<lparr>openclaw := openclaw w @ [args]\<rparr>)"

subsection \<open>Decoding and encoding UTF-8\<close>

text \<open>
  \<^verbatim>\<open>bytes.decode('utf-8', errors=...)\<close> and \<^verbatim>\<open>str.encode('utf-8')\<close> of the Python
  library. \<open>utf8_next\<close> reads one code point from the front of a non-empty buffer: it
  returns the code point and the number of bytes it took, or the number of bytes of
  the ill-formed sequence (the longest prefix that could still begin a well-formed
  one, at least one byte).
\<close>

datatype dec = Cp nat nat | Bad nat

definition cont :: "byte \<Rightarrow> bool" where
  "cont b = (0x80 \<le> b \<and> b \<le> 0xBF)"

fun utf8_next :: "byte list \<Rightarrow> dec" where
  "utf8_next [] = Bad 0"
| "utf8_next (b # bs) =
     (if b < 0x80 then Cp (unat b) 1
      else if b < 0xC2 then Bad 1
      else if b < 0xE0 then
        (case bs of
           [] \<Rightarrow> Bad 1
         | c2 # _ \<Rightarrow>
             if cont c2 then Cp ((unat b - 0xC0) * 64 + (unat c2 - 0x80)) 2 else Bad 1)
      else if b < 0xF0 then
        (case bs of
           [] \<Rightarrow> Bad 1
         | c2 # bs2 \<Rightarrow>
             if \<not> cont c2 \<or> (if c2 < 0xA0 then b = 0xE0 else b = 0xED) then Bad 1
             else (case bs2 of
                     [] \<Rightarrow> Bad 2
                   | c3 # _ \<Rightarrow>
                       if cont c3
                       then Cp ((unat b - 0xE0) * 4096 + (unat c2 - 0x80) * 64
                                + (unat c3 - 0x80)) 3
                       else Bad 2))
      else if b < 0xF5 then
        (case bs of
           [] \<Rightarrow> Bad 1
         | c2 # bs2 \<Rightarrow>
             if \<not> cont c2 \<or> (if c2 < 0x90 then b = 0xF0 else b = 0xF4) then Bad 1
             else (case bs2 of
                     [] \<Rightarrow> Bad 2
                   | c3 # bs3 \<Rightarrow>
                       if \<not> cont c3 then Bad 2
                       else (case bs3 of
                               [] \<Rightarrow> Bad 3
                             | c4 # _ \<Rightarrow>
                                 if cont c4
                                 then Cp ((unat b - 0xF0) * 262144 + (unat c2 - 0x80) * 4096
                                          + (unat c3 - 0x80) * 64 + (unat c4 - 0x80)) 4
                                 else Bad 3)))
      else Bad 1)"

text \<open>\<^verbatim>\<open>data.decode('utf-8', errors='replace')\<close>: an ill-formed sequence becomes U+FFFD.\<close>

function decode_replace :: "byte list \<Rightarrow> ustr" where
  "decode_replace bs =
     (if bs = [] then []
      else (case utf8_next bs of
              Cp c n \<Rightarrow> c # decode_replace (drop n bs)
            | Bad n \<Rightarrow> 0xFFFD # decode_replace (drop n bs)))"
  by pat_completeness auto
termination
proof (relation "measure length")
  fix bs :: "byte list" and c n :: nat
  assume "bs \<noteq> []" and "utf8_next bs = Cp c n"
  then show "(drop n bs, bs) \<in> measure length"
    by (cases bs) (auto split: if_splits list.splits)
next
  fix bs :: "byte list" and n :: nat
  assume "bs \<noteq> []" and "utf8_next bs = Bad n"
  then show "(drop n bs, bs) \<in> measure length"
    by (cases bs) (auto split: if_splits list.splits)
qed simp

declare decode_replace.simps [simp del]

text \<open>Strict decoding, as a text-mode file does it: \<open>None\<close> is \<^verbatim>\<open>UnicodeDecodeError\<close>.\<close>

function decode_strict :: "byte list \<Rightarrow> ustr option" where
  "decode_strict bs =
     (if bs = [] then Some []
      else (case utf8_next bs of
              Cp c n \<Rightarrow> map_option ((#) c) (decode_strict (drop n bs))
            | Bad n \<Rightarrow> None))"
  by pat_completeness auto
termination
proof (relation "measure length")
  fix bs :: "byte list" and c n :: nat
  assume "bs \<noteq> []" and "utf8_next bs = Cp c n"
  then show "(drop n bs, bs) \<in> measure length"
    by (cases bs) (auto split: if_splits list.splits)
qed simp

declare decode_strict.simps [simp del]

definition encode_cp :: "nat \<Rightarrow> byte list" where
  "encode_cp c =
     (if c < 0x80 then [of_nat c]
      else if c < 0x800 then [of_nat (0xC0 + c div 64), of_nat (0x80 + c mod 64)]
      else if c < 0x10000 then
        [of_nat (0xE0 + c div 4096), of_nat (0x80 + c div 64 mod 64), of_nat (0x80 + c mod 64)]
      else
        [of_nat (0xF0 + c div 262144), of_nat (0x80 + c div 4096 mod 64),
         of_nat (0x80 + c div 64 mod 64), of_nat (0x80 + c mod 64)])"

text \<open>
  \<^verbatim>\<open>data.encode('utf-8')\<close>: \<open>None\<close> is \<^verbatim>\<open>UnicodeEncodeError\<close>, raised for a
  surrogate code point.
\<close>

definition encode_utf8 :: "ustr \<Rightarrow> byte list option" where
  "encode_utf8 t =
     (if \<exists>c \<in> set t. 0xD800 \<le> c \<and> c \<le> 0xDFFF then None
      else Some (concat (map encode_cp t)))"

subsection \<open>Events of the environment\<close>

text \<open>
  One poll of the PTY master, \<^verbatim>\<open>select.select([fd], [], [], 0.5)\<close> and the
  \<^verbatim>\<open>os.read(fd, 10240)\<close> that follows when the descriptor is readable:
  \<^item> \<open>Idle\<close>: nothing became readable, the call returned after its timeout;
  \<^item> \<open>Ready d data\<close>: readable after \<open>d\<close> seconds, with \<open>data\<close> waiting in the
    PTY's buffer (no data is end of file); the read takes at most 10240 bytes of it and
    what is left is part of what a later poll finds;
  \<^item> \<open>Failing d\<close>: readable after \<open>d\<close> seconds and \<^verbatim>\<open>os.read\<close> raised
    \<^verbatim>\<open>OSError\<close>.
\<close>

datatype pty_event = Idle | Ready real "byte list" | Failing real

text \<open>
  What the intervention agent did to \<^verbatim>\<open>status.json\<close> during one iteration of the
  pause loop. An iteration is the poll of the PTY, the agent's action, and the time
  that the iteration's own work takes between the return of the poll and the reading of
  the clock that follows the read of the status file (the drain, the read, the print
  and the rewrite are not instantaneous).
\<close>

datatype agent_action = NoAction | Put content | Remove

datatype pause_ev = PauseEv pty_event agent_action real

text \<open>
  One iteration of the main loop: whether the child is still alive
  (\<^verbatim>\<open>process.poll() is None\<close>), the poll of the PTY, and the events of the pause this
  iteration may enter.
\<close>

datatype main_ev = MainEv bool pty_event "pause_ev list"

definition POLL_TIMEOUT :: real where
  "POLL_TIMEOUT = 1 / 2"

text \<open>The time a \<^verbatim>\<open>select\<close> with timeout \<open>POLL_TIMEOUT\<close> blocks.\<close>

fun select_time :: "pty_event \<Rightarrow> real" where
  "select_time Idle = POLL_TIMEOUT"
| "select_time (Ready d data) = max 0 (min d POLL_TIMEOUT)"
| "select_time (Failing d) = max 0 (min d POLL_TIMEOUT)"

definition advance :: "real \<Rightarrow> runner \<Rightarrow> runner" where
  "advance d w = w\<lparr>clock := clock w + d\<rparr>"

definition os_read :: "nat \<Rightarrow> byte list \<Rightarrow> byte list" where
  "os_read n data = take n data"

definition apply_agent :: "agent_action \<Rightarrow> runner \<Rightarrow> runner" where
  "apply_agent a w =
     (case a of
        NoAction \<Rightarrow> w
      | Put c \<Rightarrow> w\<lparr>runner_dir := Some ((entries w)(status_file \<mapsto> File c))\<rparr>
      | Remove \<Rightarrow> w\<lparr>runner_dir := Some ((entries w)(status_file := None))\<rparr>)"

subsection \<open>trigger\_ai\<close>

definition stdout_write :: "ustr \<Rightarrow> runner \<Rightarrow> runner" where
  "stdout_write text w = w\<lparr>console := console w @ [Write text]\<rparr>"

text \<open>Lines 190 to 203: the drain inside the pause loop.\<close>

definition pause_drain :: "pty_event \<Rightarrow> runner \<Rightarrow> runner" where
  "pause_drain ev w =
     (case master_fd w of
        None \<Rightarrow> advance POLL_TIMEOUT w
      | Some fd \<Rightarrow>
          (case ev of
             Idle \<Rightarrow> advance (select_time ev) w
           | Ready d data \<Rightarrow>
               (let w1 = advance (select_time ev) w;
                    chunk = os_read 10240 data
                in if chunk \<noteq> []
                   then (let text = decode_replace chunk
                         in log_output text (stdout_write text w1))
                   else w1)
           | Failing d \<Rightarrow> advance (select_time ev) w))"

text \<open>
  Lines 206 to 216: \<open>None\<close> is an exception swallowed by the bare \<^verbatim>\<open>except\<close>
  (no file, no JSON, or a JSON value that is no object and so has no \<^verbatim>\<open>get\<close>);
  \<open>Some b\<close> is the value of \<^verbatim>\<open>data.get("state") == "AI_DONE"\<close>. A key that occurs
  twice in the JSON text has its last value.
\<close>

definition ai_done :: "runner \<Rightarrow> bool option" where
  "ai_done w =
     (case json_load status_file w of
        None \<Rightarrow> None
      | Some (JObj kvs) \<Rightarrow> Some (map_of (rev kvs) ''state'' = Some (JStr ''AI_DONE''))
      | Some _ \<Rightarrow> None)"

definition resume :: "runner \<Rightarrow> runner" where
  "resume w =
     (let w1 = print ''[Runner] AI finished. Resuming...'' w;
          w2 = update_status ''MONITORING'' None (Some ''Resumed after AI intervention'') w1
      in w2\<lparr>last_activity_time := clock w2, last_log_chunk := []\<rparr>)"

fun work_time :: "pause_ev \<Rightarrow> real" where
  "work_time (PauseEv p a dt) = max 0 dt"

definition pause_step :: "pause_ev \<Rightarrow> runner \<Rightarrow> runner" where
  "pause_step ev w =
     (case ev of PauseEv p a dt \<Rightarrow> advance (work_time ev) (apply_agent a (pause_drain p w)))"

text \<open>The loop \<^verbatim>\<open>while self.running\<close> of lines 188 to 216.\<close>

fun wait_for_ai :: "pause_ev list \<Rightarrow> runner \<Rightarrow> runner outcome" where
  "wait_for_ai [] w = (if running w then Pending w else Returned w)"
| "wait_for_ai (ev # evs) w =
     (if \<not> running w then Returned w
      else (let w1 = pause_step ev w
            in if ai_done w1 = Some True then Returned (resume w1)
               else wait_for_ai evs w1))"

text \<open>Lines 178 to 187: what \<^verbatim>\<open>trigger_ai\<close> does before it waits.\<close>

definition trigger_enter :: "string \<Rightarrow> runner \<Rightarrow> runner" where
  "trigger_enter reason w =
     (let w1 = print (''[Runner] Triggering AI. Reason: '' @ reason) w;
          w2 = update_status ''WAITING_FOR_AI'' (Some reason) None w1;
          w3 = (case cron_id w2 of
                  None \<Rightarrow> print ''[Runner] Cannot trigger AI: No Cron ID'' w2
                | Some c \<Rightarrow>
                    if c = [] then print ''[Runner] Cannot trigger AI: No Cron ID'' w2
                    else run_openclaw_cmd [''cron'', ''run'', ''--force'', c] w2)
      in print ''[Runner] Waiting for AI...'' w3)"

definition trigger_ai :: "string \<Rightarrow> pause_ev list \<Rightarrow> runner \<Rightarrow> runner outcome" where
  "trigger_ai reason evs w =
     (if state w = ''WAITING_FOR_AI'' then Returned w
      else wait_for_ai evs (trigger_enter reason w))"

subsection \<open>The main loop of run\<close>

text \<open>A statement after a call runs only once the call has returned.\<close>

fun and_then :: "runner outcome \<Rightarrow> (runner \<Rightarrow> runner) \<Rightarrow> runner outcome" where
  "and_then (Returned w) f = Returned (f w)"
| "and_then (Pending w) f = Pending w"

definition endswith_nl :: "ustr \<Rightarrow> bool" where
  "endswith_nl t = (t \<noteq> [] \<and> last t = 10)"

text \<open>Lines 293 to 304: the timers.\<close>

definition check_timers :: "pause_ev list \<Rightarrow> runner \<Rightarrow> runner outcome" where
  "check_timers evs w =
     (let now = clock w;
          elapsed = now - last_activity_time w
      in if elapsed > IO_WAIT_TIMEOUT \<and> last_log_chunk w \<noteq> []
            \<and> \<not> endswith_nl (last_log_chunk w)
         then and_then (trigger_ai ''IO_WAIT'' evs w) (\<lambda>w'. w'\<lparr>last_log_chunk := []\<rparr>)
         else if elapsed > STALL_TIMEOUT
         then and_then (trigger_ai ''STALL'' evs w) (\<lambda>w'. w'\<lparr>last_activity_time := clock w'\<rparr>)
         else Returned w)"

text \<open>
  Lines 275 to 290: the drain of the main loop. \<open>Inl\<close> is the \<^verbatim>\<open>break\<close> on
  \<^verbatim>\<open>OSError\<close>.
\<close>

definition drain :: "pty_event \<Rightarrow> runner \<Rightarrow> runner + runner" where
  "drain ev w =
     (case ev of
        Idle \<Rightarrow> Inr (advance (select_time ev) w)
      | Failing d \<Rightarrow> Inl (advance (select_time ev) w)
      | Ready d data \<Rightarrow>
          (let w1 = advance (select_time ev) w;
               chunk = os_read 10240 data
           in if chunk \<noteq> []
              then (let text = decode_replace chunk;
                        w2 = log_output text (stdout_write text w1)
                    in Inr (w2\<lparr>last_activity_time := clock w2, last_log_chunk := text\<rparr>))
              else Inr w1))"

text \<open>
  The loop \<^verbatim>\<open>while self.process.poll() is None\<close>. \<open>Returned\<close>: the loop was left
  (the child ended, or the \<^verbatim>\<open>break\<close>); \<open>Pending\<close>: still inside.
\<close>

fun main_loop :: "main_ev list \<Rightarrow> runner \<Rightarrow> runner outcome" where
  "main_loop [] w = Pending w"
| "main_loop (MainEv alive p pevs # evs) w =
     (if \<not> alive then Returned w
      else (case drain p w of
              Inl w1 \<Rightarrow> Returned w1
            | Inr w1 \<Rightarrow>
                (case check_timers pevs w1 of
                   Pending w2 \<Rightarrow> Pending w2
                 | Returned w2 \<Rightarrow> main_loop evs w2)))"

subsection \<open>setup\_dirs\<close>

definition S_IRUSR :: "32 word" where
  "S_IRUSR = 256"

definition S_IWUSR :: "32 word" where
  "S_IWUSR = 128"

definition S_IRGRP :: "32 word" where
  "S_IRGRP = 32"

definition S_IWGRP :: "32 word" where
  "S_IWGRP = 16"

text \<open>
  The calls of \<^verbatim>\<open>setup_dirs\<close> and what they raise: \<^verbatim>\<open>os.makedirs\<close> (without
  \<^verbatim>\<open>exist_ok\<close>) refuses a directory that exists; \<^verbatim>\<open>os.mkfifo\<close>,
  \<^verbatim>\<open>os.chmod\<close> and \<^verbatim>\<open>open\<close> need the directory, \<^verbatim>\<open>os.mkfifo\<close> refuses
  a name that is taken, \<^verbatim>\<open>os.chmod\<close> needs the name.
\<close>

datatype os_error = FileExistsError | FileNotFoundError

fun then_try ::
  "os_error + runner \<Rightarrow> (runner \<Rightarrow> os_error + runner) \<Rightarrow> os_error + runner" where
  "then_try (Inl e) f = Inl e"
| "then_try (Inr w) f = f w"

definition rmtree :: "runner \<Rightarrow> runner" where
  "rmtree w = w\<lparr>runner_dir := None\<rparr>"

definition makedirs :: "runner \<Rightarrow> os_error + runner" where
  "makedirs w =
     (case runner_dir w of
        Some d \<Rightarrow> Inl FileExistsError
      | None \<Rightarrow> Inr (w\<lparr>runner_dir := Some Map.empty\<rparr>))"

text \<open>\<^verbatim>\<open>os.mkfifo(path)\<close>: the default mode \<^verbatim>\<open>0o666\<close>, less the process's umask.\<close>

definition mkfifo :: "string \<Rightarrow> runner \<Rightarrow> os_error + runner" where
  "mkfifo name w =
     (case runner_dir w of
        None \<Rightarrow> Inl FileNotFoundError
      | Some d \<Rightarrow>
          (case d name of
             Some n \<Rightarrow> Inl FileExistsError
           | None \<Rightarrow> Inr (w\<lparr>runner_dir := Some (d(name \<mapsto> Fifo (438 AND NOT (umask w))))\<rparr>)))"

text \<open>Only the mode of a named pipe is part of the model.\<close>

definition chmod :: "string \<Rightarrow> 32 word \<Rightarrow> runner \<Rightarrow> os_error + runner" where
  "chmod name mode w =
     (case runner_dir w of
        None \<Rightarrow> Inl FileNotFoundError
      | Some d \<Rightarrow>
          (case d name of
             None \<Rightarrow> Inl FileNotFoundError
           | Some (Fifo m) \<Rightarrow> Inr (w\<lparr>runner_dir := Some (d(name \<mapsto> Fifo mode))\<rparr>)
           | Some n \<Rightarrow> Inr w))"

text \<open>
  A step that opens a file of the runner directory for writing: without the directory
  the \<^verbatim>\<open>open\<close> raises.
\<close>

definition in_dir :: "(runner \<Rightarrow> runner) \<Rightarrow> runner \<Rightarrow> os_error + runner" where
  "in_dir f w =
     (case runner_dir w of
        None \<Rightarrow> Inl FileNotFoundError
      | Some d \<Rightarrow> Inr (f w))"

text \<open>\<^verbatim>\<open>str(n)\<close> for an integer: its decimal digits.\<close>

fun digits :: "nat \<Rightarrow> string" where
  "digits n =
     (if n < 10 then [char_of (48 + n)] else digits (n div 10) @ [char_of (48 + n mod 10)])"

declare digits.simps [simp del]

definition str_int :: "int \<Rightarrow> string" where
  "str_int i = (if i < 0 then CHR ''-'' # digits (nat (- i)) else digits (nat i))"

definition text_of :: "string \<Rightarrow> ustr" where
  "text_of s = map of_char s"

definition setup_dirs :: "runner \<Rightarrow> os_error + runner" where
  "setup_dirs w =
     (let w1 = (if runner_dir w \<noteq> None then rmtree w else w)
      in then_try (then_try (then_try (then_try
           (makedirs w1)
           (mkfifo pipe_file))
           (chmod pipe_file (S_IRUSR OR S_IWUSR OR S_IRGRP OR S_IWGRP)))
           (in_dir (\<lambda>v. write_text pid_file (text_of (str_int (runner_pid v)))
                           (open_w pid_file v))))
           (in_dir (update_status ''MONITORING'' None (Some ''Starting up''))))"

subsection \<open>The input gate\<close>

text \<open>
  One \<^verbatim>\<open>pipe.read(1024)\<close> on the pipe opened in text mode: the text it returns (the
  empty text once the writer has closed its end) or an exception. One turn of the outer
  loop: the \<^verbatim>\<open>open\<close> fails, or a writer connects and the reads follow.
\<close>

datatype pipe_read = Chunk ustr | ReadRaises

datatype gate_ev = OpenFails | Writer "pipe_read list"

datatype gate_result = Closed runner | Raised runner | Blocked runner

definition inject :: "ustr \<Rightarrow> byte list \<Rightarrow> runner \<Rightarrow> runner" where
  "inject data bs w = w\<lparr>pty_in := pty_in w @ bs, console := console w @ [PrintInjected data]\<rparr>"

text \<open>Lines 228 to 234, the loop inside the \<^verbatim>\<open>with\<close> block.\<close>

fun gate_reads :: "pipe_read list \<Rightarrow> runner \<Rightarrow> gate_result" where
  "gate_reads [] w = (if running w then Blocked w else Closed w)"
| "gate_reads (r # rs) w =
     (if \<not> running w then Closed w
      else (case r of
              ReadRaises \<Rightarrow> Raised w
            | Chunk data \<Rightarrow>
                if data = [] then Closed w
                else (case master_fd w of
                        None \<Rightarrow> gate_reads rs w
                      | Some fd \<Rightarrow>
                          (case encode_utf8 data of
                             None \<Rightarrow> Raised w
                           | Some bs \<Rightarrow> gate_reads rs (inject data bs w)))))"

text \<open>Lines 235 to 238, the handler.\<close>

definition gate_error :: "runner \<Rightarrow> runner" where
  "gate_error w =
     (if running w
      then advance POLL_TIMEOUT (w\<lparr>console := console w @ [PrintGateError]\<rparr>)
      else w)"

fun gate_loop :: "gate_ev list \<Rightarrow> runner \<Rightarrow> runner outcome" where
  "gate_loop [] w = (if running w then Pending w else Returned w)"
| "gate_loop (e # es) w =
     (if \<not> running w then Returned w
      else (case e of
              OpenFails \<Rightarrow> gate_loop es (gate_error w)
            | Writer rs \<Rightarrow>
                (case gate_reads rs w of
                   Closed w1 \<Rightarrow> gate_loop es w1
                 | Raised w1 \<Rightarrow> gate_loop es (gate_error w1)
                 | Blocked w1 \<Rightarrow> Pending w1)))"

definition input_gate_thread :: "gate_ev list \<Rightarrow> runner \<Rightarrow> runner outcome" where
  "input_gate_thread es w =
     gate_loop es (print (''[Runner] Input gate listening: '' @ input_pipe w) w)"

text \<open>
  What the reads of a text-mode file return for a writer that sends the bytes \<open>bs\<close>
  and closes: the bytes are decoded strictly, \<^verbatim>\<open>\r\n\<close> and \<^verbatim>\<open>\r\<close> become
  \<^verbatim>\<open>\n\<close> (the default \<^verbatim>\<open>newline=None\<close>), each read returns up to 1024 characters
  and the last one the empty text. Bytes that do not decode raise in the read that
  meets them; here the writer's bytes reach the reader as one buffer.
\<close>

fun universal_newlines :: "ustr \<Rightarrow> ustr" where
  "universal_newlines [] = []"
| "universal_newlines [c] = (if c = 13 then [10] else [c])"
| "universal_newlines (c # d # cs) =
     (if c = 13 \<and> d = 10 then 10 # universal_newlines cs
      else if c = 13 then 10 # universal_newlines (d # cs)
      else c # universal_newlines (d # cs))"

fun pieces :: "nat \<Rightarrow> 'a list \<Rightarrow> 'a list list" where
  "pieces n xs =
     (if n = 0 \<or> xs = [] then [] else take n xs # pieces n (drop n xs))"

declare pieces.simps [simp del]

definition text_reads :: "byte list \<Rightarrow> pipe_read list" where
  "text_reads bs =
     (case decode_strict bs of
        None \<Rightarrow> [ReadRaises]
      | Some t \<Rightarrow> map Chunk (pieces 1024 (universal_newlines t)) @ [Chunk []])"

subsection \<open>cleanup and run\<close>

text \<open>
  \<^verbatim>\<open>os.unlink\<close> inside \<^verbatim>\<open>try\<close> / \<^verbatim>\<open>except: pass\<close>, after
  \<^verbatim>\<open>os.path.exists\<close>: a directory under that name stays.
\<close>

definition unlink_quietly :: "string \<Rightarrow> runner \<Rightarrow> runner" where
  "unlink_quietly name w =
     (case entries w name of
        None \<Rightarrow> w
      | Some Dir \<Rightarrow> w
      | Some n \<Rightarrow> w\<lparr>runner_dir := Some ((entries w)(name := None))\<rparr>)"

text \<open>
  \<^verbatim>\<open>cleanup\<close>; \<open>alive\<close> is \<^verbatim>\<open>self.process.poll() is None\<close> at that moment. The
  child leads its own process group (\<^verbatim>\<open>os.setsid\<close>), so the group signalled is the
  child's pid.
\<close>

definition cleanup :: "bool \<Rightarrow> runner \<Rightarrow> runner" where
  "cleanup alive w =
     (let w1 = w\<lparr>running := False\<rparr>;
          w2 = (case process w1 of
                  None \<Rightarrow> w1
                | Some pid \<Rightarrow>
                    if alive
                    then (print ''[Runner] Killing child process...'' w1)
                           \<lparr>killpg := killpg w1 @ [pid]\<rparr>
                    else w1);
          w3 = (case cron_id w2 of
                  None \<Rightarrow> w2
                | Some c \<Rightarrow>
                    if c = [] then w2
                    else run_openclaw_cmd [''cron'', ''rm'', c]
                           (print (''[Runner] Removing cron job: '' @ c) w2));
          w4 = unlink_quietly pipe_file w3
      in print ''[Runner] Done.'' w4)"

text \<open>
  \<^verbatim>\<open>run\<close>, in the main thread: \<open>fd\<close> is the PTY master that \<^verbatim>\<open>pty.openpty\<close>
  returns and \<open>pid\<close> the child that \<^verbatim>\<open>subprocess.Popen\<close> starts. An exception of
  \<^verbatim>\<open>setup_dirs\<close> leaves \<^verbatim>\<open>run\<close> before the \<^verbatim>\<open>try\<close>; once the main loop is left,
  the \<^verbatim>\<open>finally\<close> clause runs \<^verbatim>\<open>cleanup\<close>.
\<close>

definition run ::
  "int \<Rightarrow> int \<Rightarrow> main_ev list \<Rightarrow> bool \<Rightarrow> runner \<Rightarrow> os_error + runner outcome" where
  "run fd pid evs alive w =
     (case setup_dirs w of
        Inl e \<Rightarrow> Inl e
      | Inr w1 \<Rightarrow>
          (let w2 = print (''[Runner] Starting: '' @ cmd w1) (w1\<lparr>master_fd := Some fd\<rparr>);
               w3 = w2\<lparr>process := Some pid\<rparr>;
               w4 = update_status ''MONITORING'' None (Some ''Process started'') w3;
               w5 = print (''[Runner] Monitoring PID '' @ str_int pid @ ''...'') w4;
               w6 = w5\<lparr>last_activity_time := clock w5\<rparr>
           in Inr (and_then (main_loop evs w6) (cleanup alive))))"

subsection \<open>Observations used in the statements\<close>

text \<open>A field of the record in \<^verbatim>\<open>status.json\<close>, as a reader of the file finds it.\<close>

definition status_get :: "runner \<Rightarrow> string \<Rightarrow> json option" where
  "status_get w key =
     (case json_load status_file w of
        Some (JObj kvs) \<Rightarrow> map_of (rev kvs) key
      | _ \<Rightarrow> None)"

definition log_text :: "runner \<Rightarrow> ustr" where
  "log_text w = (case entries w log_file of Some (File (Text t)) \<Rightarrow> t | _ \<Rightarrow> [])"

fun final :: "'a outcome \<Rightarrow> 'a" where
  "final (Returned w) = w"
| "final (Pending w) = w"

text \<open>The decoded chunks that the polls of a pause deliver.\<close>

fun chunk_of :: "pty_event \<Rightarrow> ustr list" where
  "chunk_of Idle = []"
| "chunk_of (Failing d) = []"
| "chunk_of (Ready d data) =
     (if os_read 10240 data = [] then [] else [decode_replace (os_read 10240 data)])"

fun pause_chunks :: "pause_ev list \<Rightarrow> ustr list" where
  "pause_chunks [] = []"
| "pause_chunks (PauseEv p a dt # evs) = chunk_of p @ pause_chunks evs"

text \<open>
  Whether, over these iterations of the pause loop, one of the reads of the status file
  finds the state \<open>AI_DONE\<close>.
\<close>

fun answered :: "pause_ev list \<Rightarrow> runner \<Rightarrow> bool" where
  "answered [] w = False"
| "answered (ev # evs) w =
     (ai_done (pause_step ev w) = Some True \<or> answered evs (pause_step ev w))"

text \<open>Whether every read of the status file over these iterations raises.\<close>

fun read_fails :: "pause_ev list \<Rightarrow> runner \<Rightarrow> bool" where
  "read_fails [] w = True"
| "read_fails (ev # evs) w =
     (ai_done (pause_step ev w) = None \<and> read_fails evs (pause_step ev w))"

text \<open>The lines printed on the console, without the echoed output of the child.\<close>

fun is_message :: "out \<Rightarrow> bool" where
  "is_message (Write t) = False"
| "is_message (Print s) = True"
| "is_message (PrintInjected t) = True"
| "is_message PrintGateError = True"

definition messages :: "runner \<Rightarrow> out list" where
  "messages w = filter is_message (console w)"

text \<open>A turn of the input gate that ends in its exception handler.\<close>

fun gate_fails :: "gate_ev \<Rightarrow> bool" where
  "gate_fails OpenFails = True"
| "gate_fails (Writer []) = False"
| "gate_fails (Writer (ReadRaises # rs)) = True"
| "gate_fails (Writer (Chunk t # rs)) = False"

text \<open>How often the console announces a trigger for the given reason.\<close>

definition announced :: "string \<Rightarrow> runner \<Rightarrow> nat" where
  "announced reason w =
     count_list (console w) (Print (''[Runner] Triggering AI. Reason: '' @ reason))"

text \<open>Sessions in the middle of a run, used to instantiate the statements.\<close>

definition session0 :: runner where
  "session0 =
     \<lparr>cmd = ''read x'', working_dir = ''/tmp/job'', cron_id = Some ''job-1'',
      process = Some 4242, master_fd = Some 3, running = True,
      last_activity_time = 100, last_log_chunk = [0x3F, 0x20], state = ''MONITORING'',
      clock = 103, runner_pid = 4000, umask = 18,
      runner_dir = Some [status_file \<mapsto>
        File (Doc (JObj [(''state'', JStr ''MONITORING''), (''updated_at'', JReal 95),
          (''runner_pid'', JInt 4000), (''child_pid'', JInt 4242), (''cmd'', JStr ''read x''),
          (''input_pipe'', JStr ''/tmp/job/.runner/input.pipe''),
          (''info'', JStr ''Process started'')]))],
      console = [], openclaw_fails = False, openclaw = [], pty_in = [],
      killpg = []\<rparr>"

definition paused_done :: runner where
  "paused_done =
     session0\<lparr>state := ''WAITING_FOR_AI'',
       runner_dir := Some [status_file \<mapsto> File (Doc (JObj [(''state'', JStr ''AI_DONE'')]))]\<rparr>"

section \<open>Properties\<close>

subsection \<open>Fields that the operations leave alone\<close>

lemmas file_defs = entries_def open_w_def json_dump_def write_text_def json_load_def
  log_output_def print_def stdout_write_def advance_def

lemma update_status_fields:
  "state (update_status st r i w) = st"
  "clock (update_status st r i w) = clock w"
  "console (update_status st r i w) = console w"
  "running (update_status st r i w) = running w"
  "master_fd (update_status st r i w) = master_fd w"
  "cron_id (update_status st r i w) = cron_id w"
  "last_activity_time (update_status st r i w) = last_activity_time w"
  "last_log_chunk (update_status st r i w) = last_log_chunk w"
  "openclaw (update_status st r i w) = openclaw w"
  "openclaw_fails (update_status st r i w) = openclaw_fails w"
  "pty_in (update_status st r i w) = pty_in w"
  by (simp_all add: update_status_def file_defs Let_def)

lemma status_get_update_status:
  "status_get (update_status st r i w) ''state'' = Some (JStr st)"
  "status_get (update_status st (Some (c # cs)) i w) ''reason'' = Some (JStr (c # cs))"
  by (simp_all add: status_get_def update_status_def file_defs Let_def status_data_def
      optional_entry_def status_file_def split: option.splits)

lemma pause_drain_fields:
  "state (pause_drain p w) = state w"
  "running (pause_drain p w) = running w"
  "master_fd (pause_drain p w) = master_fd w"
  "last_activity_time (pause_drain p w) = last_activity_time w"
  "last_log_chunk (pause_drain p w) = last_log_chunk w"
  "cron_id (pause_drain p w) = cron_id w"
  "openclaw (pause_drain p w) = openclaw w"
  "pty_in (pause_drain p w) = pty_in w"
  by (simp_all add: pause_drain_def file_defs Let_def
      split: option.splits pty_event.splits node.splits content.splits)

lemma apply_agent_fields:
  "state (apply_agent a w) = state w"
  "running (apply_agent a w) = running w"
  "master_fd (apply_agent a w) = master_fd w"
  "last_activity_time (apply_agent a w) = last_activity_time w"
  "last_log_chunk (apply_agent a w) = last_log_chunk w"
  "clock (apply_agent a w) = clock w"
  "console (apply_agent a w) = console w"
  "cron_id (apply_agent a w) = cron_id w"
  "openclaw (apply_agent a w) = openclaw w"
  "pty_in (apply_agent a w) = pty_in w"
  by (simp_all add: apply_agent_def split: agent_action.splits)

lemma pause_step_fields:
  "state (pause_step ev w) = state w"
  "running (pause_step ev w) = running w"
  "master_fd (pause_step ev w) = master_fd w"
  "last_activity_time (pause_step ev w) = last_activity_time w"
  "last_log_chunk (pause_step ev w) = last_log_chunk w"
  "cron_id (pause_step ev w) = cron_id w"
  "openclaw (pause_step ev w) = openclaw w"
  "pty_in (pause_step ev w) = pty_in w"
  by (simp_all add: pause_step_def advance_def pause_drain_fields apply_agent_fields
      split: pause_ev.splits)

lemma status_get_cong: "entries w' = entries w \<Longrightarrow> status_get w' k = status_get w k"
  by (simp add: status_get_def json_load_def)

lemma entries_frame:
  "entries (print s w) = entries w"
  "entries (run_openclaw_cmd args w) = entries w"
  "entries (advance d w) = entries w"
  "entries (stdout_write t w) = entries w"
  "entries (w\<lparr>last_activity_time := t1, last_log_chunk := ch\<rparr>) = entries w"
  "entries (w\<lparr>last_log_chunk := ch\<rparr>) = entries w"
  "entries (w\<lparr>last_activity_time := t1\<rparr>) = entries w"
  by (simp_all add: entries_def print_def run_openclaw_cmd_def advance_def stdout_write_def)

lemma print_fields:
  "state (print s w) = state w"
  "running (print s w) = running w"
  "clock (print s w) = clock w"
  "cron_id (print s w) = cron_id w"
  "master_fd (print s w) = master_fd w"
  "last_activity_time (print s w) = last_activity_time w"
  "last_log_chunk (print s w) = last_log_chunk w"
  "console (print s w) = console w @ [Print s]"
  "openclaw (print s w) = openclaw w"
  "status_get (print s w) k = status_get w k"
  by (simp_all add: print_def status_get_def json_load_def entries_def)

lemma run_openclaw_cmd_fields:
  "state (run_openclaw_cmd args w) = state w"
  "running (run_openclaw_cmd args w) = running w"
  "clock (run_openclaw_cmd args w) = clock w"
  "cron_id (run_openclaw_cmd args w) = cron_id w"
  "master_fd (run_openclaw_cmd args w) = master_fd w"
  "last_activity_time (run_openclaw_cmd args w) = last_activity_time w"
  "last_log_chunk (run_openclaw_cmd args w) = last_log_chunk w"
  "status_get (run_openclaw_cmd args w) k = status_get w k"
  by (simp_all add: run_openclaw_cmd_def print_fields)
     (simp add: status_get_def json_load_def entries_def)

lemma resume_fields:
  "state (resume w) = ''MONITORING''"
  "last_activity_time (resume w) = clock w"
  "last_log_chunk (resume w) = []"
  "clock (resume w) = clock w"
  "running (resume w) = running w"
  "status_get (resume w) ''state'' = Some (JStr ''MONITORING'')"
  by (simp_all add: resume_def Let_def update_status_fields status_get_update_status print_fields
      status_get_cong [OF entries_frame(5)])

lemma wait_pending:
  "wait_for_ai evs w = Pending w' \<Longrightarrow>
     state w' = state w \<and> last_activity_time w' = last_activity_time w
     \<and> last_log_chunk w' = last_log_chunk w \<and> running w'"
proof (induction evs arbitrary: w)
  case Nil
  then show ?case by (simp split: if_splits)
next
  case (Cons ev evs)
  from Cons.prems have "wait_for_ai evs (pause_step ev w) = Pending w'"
    by (simp add: Let_def split: if_splits)
  then show ?case using Cons.IH by (fastforce simp: pause_step_fields)
qed

lemma wait_returned:
  "wait_for_ai evs w = Returned w' \<Longrightarrow> running w \<Longrightarrow>
     state w' = ''MONITORING'' \<and> last_activity_time w' = clock w'
     \<and> last_log_chunk w' = [] \<and> status_get w' ''state'' = Some (JStr ''MONITORING'')"
proof (induction evs arbitrary: w)
  case Nil
  then show ?case by (simp split: if_splits)
next
  case (Cons ev evs)
  show ?case
  proof (cases "ai_done (pause_step ev w) = Some True")
    case True
    with Cons.prems have "w' = resume (pause_step ev w)" by (simp add: Let_def)
    then show ?thesis by (simp add: resume_fields)
  next
    case False
    with Cons.prems have "wait_for_ai evs (pause_step ev w) = Returned w'"
      by (simp add: Let_def)
    moreover have "running (pause_step ev w)" using Cons.prems by (simp add: pause_step_fields)
    ultimately show ?thesis by (rule Cons.IH)
  qed
qed

lemma wait_returns:
  assumes "running w" and "answered evs w"
  shows "\<exists>w'. wait_for_ai evs w = Returned w'"
  using assms
proof (induction evs arbitrary: w)
  case Nil
  then show ?case by simp
next
  case (Cons ev evs)
  show ?case
  proof (cases "ai_done (pause_step ev w) = Some True")
    case True
    with Cons.prems(1) show ?thesis by (simp add: Let_def)
  next
    case False
    with Cons.prems have "running (pause_step ev w)" "answered evs (pause_step ev w)"
      by (simp_all add: pause_step_fields)
    then have "\<exists>w'. wait_for_ai evs (pause_step ev w) = Returned w'"
      by (rule Cons.IH)
    with False Cons.prems(1) show ?thesis by (simp add: Let_def)
  qed
qed

lemma trigger_enter_fields:
  "state (trigger_enter r w) = ''WAITING_FOR_AI''"
  "running (trigger_enter r w) = running w"
  "clock (trigger_enter r w) = clock w"
  "last_activity_time (trigger_enter r w) = last_activity_time w"
  "last_log_chunk (trigger_enter r w) = last_log_chunk w"
  "status_get (trigger_enter r w) ''state'' = Some (JStr ''WAITING_FOR_AI'')"
  by (simp_all add: trigger_enter_def Let_def update_status_fields print_fields
      run_openclaw_cmd_fields status_get_update_status split: option.splits)

lemma trigger_enter_reason:
  "status_get (trigger_enter (c # cs) w) ''reason'' = Some (JStr (c # cs))"
  by (simp add: trigger_enter_def Let_def print_fields
      run_openclaw_cmd_fields status_get_update_status split: option.splits)

lemma ai_done_iff: "ai_done w = Some True \<longleftrightarrow> status_get w ''state'' = Some (JStr ''AI_DONE'')"
  by (auto simp: ai_done_def status_get_def split: option.splits json.splits)

lemma select_time_bounds: "0 \<le> select_time p \<and> select_time p \<le> POLL_TIMEOUT"
  by (cases p) (simp_all add: POLL_TIMEOUT_def)

lemma pause_drain_clock:
  "clock (pause_drain p w) \<le> clock w + POLL_TIMEOUT \<and> clock w \<le> clock (pause_drain p w)"
proof -
  have lo: "clock (log_output t v) = clock v" for t v
    by (simp add: log_output_def write_text_def split: option.splits node.splits content.splits)
  have "clock (pause_drain p w) = clock w + POLL_TIMEOUT
        \<or> clock (pause_drain p w) = clock w + select_time p"
    by (simp add: pause_drain_def Let_def lo stdout_write_def advance_def
        split: option.splits pty_event.splits)
  with select_time_bounds [of p] show ?thesis by (auto simp: POLL_TIMEOUT_def)
qed

lemma pause_step_clock:
  "clock (pause_step ev w) \<le> clock w + POLL_TIMEOUT + work_time ev"
  "clock w \<le> clock (pause_step ev w)"
proof -
  have "clock (pause_step ev w) = clock (pause_drain (case ev of PauseEv p a dt \<Rightarrow> p) w) + work_time ev"
    by (cases ev) (simp add: pause_step_def advance_def apply_agent_fields)
  moreover have "0 \<le> work_time ev"
    by (cases ev) simp
  ultimately show "clock (pause_step ev w) \<le> clock w + POLL_TIMEOUT + work_time ev"
    and "clock w \<le> clock (pause_step ev w)"
    using pause_drain_clock [of "case ev of PauseEv p a dt \<Rightarrow> p" w]
    by simp_all
qed

lemma log_output_fields:
  "clock (log_output t v) = clock v"
  "console (log_output t v) = console v"
  "last_activity_time (log_output t v) = last_activity_time v"
  "last_log_chunk (log_output t v) = last_log_chunk v"
  "state (log_output t v) = state v"
  by (simp_all add: log_output_def write_text_def split: option.splits node.splits content.splits)

lemma drain_cases:
  assumes "drain p w = Inr w2"
  shows "(last_activity_time w2 = last_activity_time w \<and> last_log_chunk w2 = last_log_chunk w
          \<and> clock w2 = clock w + select_time p)
       \<or> last_activity_time w2 = clock w2"
proof (cases p)
  case Idle
  with assms show ?thesis by (auto simp: drain_def advance_def)
next
  case (Ready d data)
  show ?thesis
  proof (cases "os_read 10240 data = []")
    case True
    with Ready assms show ?thesis by (auto simp: drain_def advance_def Let_def)
  next
    case False
    with Ready assms have "last_activity_time w2 = clock w2"
      by (auto simp: drain_def Let_def)
    then show ?thesis by simp
  qed
next
  case (Failing d)
  with assms show ?thesis by (simp add: drain_def)
qed

lemma check_timers_quiet:
  assumes "clock w - last_activity_time w \<le> IO_WAIT_TIMEOUT"
  shows "check_timers pevs w = Returned w"
  using assms by (simp add: check_timers_def Let_def IO_WAIT_TIMEOUT_def STALL_TIMEOUT_def)

lemma no_anomaly_after_reset:
  assumes "last_activity_time w = clock w" and "last_log_chunk w = []"
    and "drain p w = Inr w2"
  shows "check_timers pevs w2 = Returned w2"
proof -
  have b: "select_time p \<le> 1 / 2"
    using select_time_bounds [of p] by (simp add: POLL_TIMEOUT_def)
  from drain_cases [OF assms(3)] assms(1) b
  have "clock w2 - last_activity_time w2 \<le> IO_WAIT_TIMEOUT"
    by (auto simp: IO_WAIT_TIMEOUT_def)
  then show ?thesis by (rule check_timers_quiet)
qed

subsection \<open>The re-entrant guard\<close>

text \<open>
  Claim C8. A trigger request made while the session is already in state
  \<open>WAITING_FOR_AI\<close> returns at once with the whole state as it was: no field of the
  session changes, the status file is not written, the intervention CLI is not called.
\<close>

theorem trigger_ai_reentrant:
  assumes "state w = ''WAITING_FOR_AI''"
  shows "trigger_ai reason evs w = Returned w"
  using assms by (simp add: trigger_ai_def)

theorem trigger_ai_reentrant_witness:
  "state (session0\<lparr>state := ''WAITING_FOR_AI''\<rparr>) = ''WAITING_FOR_AI''
   \<and> trigger_ai ''STALL'' [] (session0\<lparr>state := ''WAITING_FOR_AI''\<rparr>)
       = Returned (session0\<lparr>state := ''WAITING_FOR_AI''\<rparr>)"
  using trigger_ai_reentrant [of "session0\<lparr>state := ''WAITING_FOR_AI''\<rparr>" "''STALL''" "[]"]
  by simp

subsection \<open>The IO\_WAIT timer\<close>

text \<open>
  Claim C1. In state \<open>MONITORING\<close>, when the timers are checked with more than
  \<open>IO_WAIT_TIMEOUT\<close> elapsed since the activity clock and a last chunk that is not empty
  and does not end in a newline, the session enters \<open>WAITING_FOR_AI\<close> and the status
  record carries that state and the reason \<open>IO_WAIT\<close>; the check then waits for the
  intervention and, once the wait returns, leaves the last chunk empty. While the wait
  has not returned the session stays in \<open>WAITING_FOR_AI\<close>; and the wait of a running
  session does return, in state \<open>MONITORING\<close> with the last chunk empty, when one of
  its reads of the status file finds \<open>AI_DONE\<close>.
\<close>

theorem io_wait_transition:
  assumes "state w = ''MONITORING''"
    and "clock w - last_activity_time w > IO_WAIT_TIMEOUT"
    and "last_log_chunk w \<noteq> []"
    and "\<not> endswith_nl (last_log_chunk w)"
  shows "(let w1 = trigger_enter ''IO_WAIT'' w in
      state w1 = ''WAITING_FOR_AI''
      \<and> status_get w1 ''state'' = Some (JStr ''WAITING_FOR_AI'')
      \<and> status_get w1 ''reason'' = Some (JStr ''IO_WAIT'')
      \<and> check_timers evs w = and_then (wait_for_ai evs w1) (\<lambda>w'. w'\<lparr>last_log_chunk := []\<rparr>)
      \<and> (\<forall>w'. check_timers evs w = Returned w' \<longrightarrow> last_log_chunk w' = [])
      \<and> (\<forall>w'. check_timers evs w = Pending w' \<longrightarrow> state w' = ''WAITING_FOR_AI'')
      \<and> (running w \<and> answered evs w1 \<longrightarrow>
           (\<exists>w'. check_timers evs w = Returned w' \<and> state w' = ''MONITORING''
              \<and> last_log_chunk w' = [])))"
proof -
  define w1 where "w1 = trigger_enter ''IO_WAIT'' w"
  have eq: "check_timers evs w = and_then (wait_for_ai evs w1) (\<lambda>w'. w'\<lparr>last_log_chunk := []\<rparr>)"
    using assms by (simp add: check_timers_def trigger_ai_def w1_def Let_def)
  have st: "state w1 = ''WAITING_FOR_AI''"
    by (simp add: w1_def trigger_enter_fields)
  have ret: "last_log_chunk w' = []" if "check_timers evs w = Returned w'" for w'
    using that unfolding eq by (cases "wait_for_ai evs w1") auto
  have pen: "state w' = ''WAITING_FOR_AI''" if "check_timers evs w = Pending w'" for w'
  proof -
    from that have "wait_for_ai evs w1 = Pending w'"
      unfolding eq by (cases "wait_for_ai evs w1") auto
    from wait_pending [OF this] st show ?thesis by simp
  qed
  have ans: "\<exists>w'. check_timers evs w = Returned w' \<and> state w' = ''MONITORING''
      \<and> last_log_chunk w' = []" if "running w" and "answered evs w1"
  proof -
    from that have r: "running w1" by (simp add: w1_def trigger_enter_fields)
    from wait_returns [OF r that(2)] obtain v where v: "wait_for_ai evs w1 = Returned v"
      by blast
    from wait_returned [OF v r] have "state v = ''MONITORING''" by simp
    with v show ?thesis unfolding eq by simp
  qed
  have "status_get w1 ''state'' = Some (JStr ''WAITING_FOR_AI'')"
    and "status_get w1 ''reason'' = Some (JStr ''IO_WAIT'')"
    by (simp_all add: w1_def trigger_enter_fields trigger_enter_reason)
  with eq st ret pen ans show ?thesis
    unfolding Let_def w1_def [symmetric] by blast
qed

theorem io_wait_transition_witness:
  "state session0 = ''MONITORING''
   \<and> clock session0 - last_activity_time session0 > IO_WAIT_TIMEOUT
   \<and> last_log_chunk session0 \<noteq> []
   \<and> \<not> endswith_nl (last_log_chunk session0)
   \<and> running session0
   \<and> answered [PauseEv Idle (Put (Doc (JObj [(''state'', JStr ''AI_DONE'')]))) 0]
        (trigger_enter ''IO_WAIT'' session0)
   \<and> state (trigger_enter ''IO_WAIT'' session0) = ''WAITING_FOR_AI''
   \<and> status_get (trigger_enter ''IO_WAIT'' session0) ''reason'' = Some (JStr ''IO_WAIT'')
   \<and> state (final (check_timers [PauseEv Idle (Put (Doc (JObj [(''state'', JStr ''AI_DONE'')]))) 0]
        session0)) = ''MONITORING''
   \<and> last_log_chunk (final (check_timers
        [PauseEv Idle (Put (Doc (JObj [(''state'', JStr ''AI_DONE'')]))) 0] session0)) = []"
proof -
  define ev where "ev = PauseEv Idle (Put (Doc (JObj [(''state'', JStr ''AI_DONE'')]))) 0"
  have h0: "running session0"
    by (simp add: session0_def)
  have h1: "state session0 = ''MONITORING''"
    by (simp add: session0_def)
  have h2: "clock session0 - last_activity_time session0 > IO_WAIT_TIMEOUT"
    by (simp add: session0_def IO_WAIT_TIMEOUT_def)
  have h3: "last_log_chunk session0 \<noteq> []"
    by (simp add: session0_def)
  have h4: "\<not> endswith_nl (last_log_chunk session0)"
    by (simp add: session0_def endswith_nl_def)
  have h5: "answered [ev] (trigger_enter ''IO_WAIT'' session0)"
    by (simp add: ev_def pause_step_def advance_def apply_agent_def ai_done_def json_load_def
        entries_def)
  note t = io_wait_transition [OF h1 h2 h3 h4, of "[ev]", unfolded Let_def]
  from t have a: "state (trigger_enter ''IO_WAIT'' session0) = ''WAITING_FOR_AI''"
    and b: "status_get (trigger_enter ''IO_WAIT'' session0) ''reason'' = Some (JStr ''IO_WAIT'')"
    by blast+
  from t h0 h5 obtain w' where "check_timers [ev] session0 = Returned w'"
    and "state w' = ''MONITORING''" and "last_log_chunk w' = []"
    by blast
  then have "state (final (check_timers [ev] session0)) = ''MONITORING''"
    and "last_log_chunk (final (check_timers [ev] session0)) = []"
    by simp_all
  with h0 h1 h2 h3 h4 h5 a b show ?thesis
    unfolding ev_def by blast
qed

subsection \<open>What a pause prints\<close>

lemma pause_drain_console:
  "console (pause_drain p w) = console w @ map Write (if master_fd w = None then [] else chunk_of p)"
  by (cases p)
     (simp_all add: pause_drain_def Let_def log_output_fields stdout_write_def advance_def
        split: option.splits)

lemma pause_step_console:
  "console (pause_step (PauseEv p a dt) w)
     = console w @ map Write (if master_fd w = None then [] else chunk_of p)"
  by (simp add: pause_step_def advance_def apply_agent_fields pause_drain_console)

lemma announced_pause_step: "announced r (pause_step ev w) = announced r w"
proof (cases ev)
  case (PauseEv p a dt)
  have "count_list (map Write xs) (Print s) = 0" for xs s
    by (induction xs) simp_all
  then show ?thesis
    unfolding PauseEv announced_def pause_step_console by simp
qed

lemma announced_resume: "announced r (resume w) = announced r w"
  by (simp add: announced_def resume_def Let_def update_status_fields print_fields)

lemma announced_wait: "announced r (final (wait_for_ai evs w)) = announced r w"
proof (induction evs arbitrary: w)
  case Nil
  show ?case by simp
next
  case (Cons ev evs)
  show ?case
  proof (cases "running w")
    case False
    then show ?thesis by simp
  next
    case True
    show ?thesis
    proof (cases "ai_done (pause_step ev w) = Some True")
      case t: True
      with True show ?thesis
        by (simp add: Let_def announced_resume announced_pause_step)
    next
      case f: False
      with True have "wait_for_ai (ev # evs) w = wait_for_ai evs (pause_step ev w)"
        by (simp add: Let_def)
      then show ?thesis by (simp add: Cons.IH announced_pause_step)
    qed
  qed
qed

lemma trigger_enter_console:
  "\<exists>extra. console (trigger_enter r w)
      = console w @ [Print (''[Runner] Triggering AI. Reason: '' @ r)] @ extra
        @ [Print ''[Runner] Waiting for AI...'']
    \<and> (extra = [] \<or> extra = [Print ''[Runner] Cannot trigger AI: No Cron ID'']
        \<or> extra = [Print ''[Runner] Error running openclaw cmd''])"
  by (simp add: trigger_enter_def Let_def print_fields update_status_fields
      run_openclaw_cmd_def print_def split: option.splits)

lemma announced_trigger_enter:
  "announced r' (trigger_enter r w) = announced r' w + (if r = r' then 1 else 0)"
proof -
  obtain extra where c: "console (trigger_enter r w)
      = console w @ [Print (''[Runner] Triggering AI. Reason: '' @ r)] @ extra
        @ [Print ''[Runner] Waiting for AI...'']"
    and e: "extra = [] \<or> extra = [Print ''[Runner] Cannot trigger AI: No Cron ID'']
        \<or> extra = [Print ''[Runner] Error running openclaw cmd'']"
    using trigger_enter_console by blast
  from e have "count_list extra (Print (''[Runner] Triggering AI. Reason: '' @ r')) = 0"
    by auto
  then show ?thesis unfolding announced_def c by auto
qed

subsection \<open>The STALL timer\<close>

text \<open>
  Claim C2. In state \<open>MONITORING\<close>, when the timers are checked with more than
  \<open>STALL_TIMEOUT\<close> elapsed since the activity clock: if the last chunk is empty or ends
  in a newline (the IO\_WAIT condition fails), the session enters \<open>WAITING_FOR_AI\<close>
  with reason \<open>STALL\<close> in the status record and, once the wait returns, the activity
  clock is set to the current time (the wait of a running session returns when one of
  its reads of the status file finds \<open>AI_DONE\<close>); if the last chunk is not empty and has no final
  newline (both conditions hold), the trigger is the IO\_WAIT one and no STALL trigger
  is announced in this check.
\<close>

theorem stall_transition:
  assumes "state w = ''MONITORING''"
    and "clock w - last_activity_time w > STALL_TIMEOUT"
  shows "(if last_log_chunk w \<noteq> [] \<and> \<not> endswith_nl (last_log_chunk w)
      then check_timers evs w
             = and_then (wait_for_ai evs (trigger_enter ''IO_WAIT'' w))
                 (\<lambda>w'. w'\<lparr>last_log_chunk := []\<rparr>)
           \<and> status_get (trigger_enter ''IO_WAIT'' w) ''reason'' = Some (JStr ''IO_WAIT'')
           \<and> announced ''IO_WAIT'' (final (check_timers evs w)) = announced ''IO_WAIT'' w + 1
           \<and> announced ''STALL'' (final (check_timers evs w)) = announced ''STALL'' w
      else (let w1 = trigger_enter ''STALL'' w in
           state w1 = ''WAITING_FOR_AI''
           \<and> status_get w1 ''state'' = Some (JStr ''WAITING_FOR_AI'')
           \<and> status_get w1 ''reason'' = Some (JStr ''STALL'')
           \<and> check_timers evs w
               = and_then (wait_for_ai evs w1) (\<lambda>w'. w'\<lparr>last_activity_time := clock w'\<rparr>)
           \<and> (\<forall>w'. check_timers evs w = Returned w' \<longrightarrow> last_activity_time w' = clock w')
           \<and> (\<forall>w'. check_timers evs w = Pending w' \<longrightarrow> state w' = ''WAITING_FOR_AI'')
           \<and> (running w \<and> answered evs w1 \<longrightarrow>
                (\<exists>w'. check_timers evs w = Returned w' \<and> state w' = ''MONITORING''
                   \<and> last_activity_time w' = clock w'))
           \<and> announced ''STALL'' (final (check_timers evs w)) = announced ''STALL'' w + 1
           \<and> announced ''IO_WAIT'' (final (check_timers evs w)) = announced ''IO_WAIT'' w))"
proof (cases "last_log_chunk w \<noteq> [] \<and> \<not> endswith_nl (last_log_chunk w)")
  case True
  define w1 where "w1 = trigger_enter ''IO_WAIT'' w"
  have eq: "check_timers evs w
      = and_then (wait_for_ai evs w1) (\<lambda>w'. w'\<lparr>last_log_chunk := []\<rparr>)"
    using assms True
    by (simp add: check_timers_def trigger_ai_def w1_def Let_def STALL_TIMEOUT_def
        IO_WAIT_TIMEOUT_def)
  have an: "announced r (final (check_timers evs w)) = announced r w1" for r
  proof -
    have "announced r (final (check_timers evs w)) = announced r (final (wait_for_ai evs w1))"
      unfolding eq by (cases "wait_for_ai evs w1") (simp_all add: announced_def)
    then show ?thesis by (simp add: announced_wait)
  qed
  show ?thesis
    using True eq an
    by (simp add: w1_def trigger_enter_reason announced_trigger_enter)
next
  case False
  define w1 where "w1 = trigger_enter ''STALL'' w"
  have eq: "check_timers evs w
      = and_then (wait_for_ai evs w1) (\<lambda>w'. w'\<lparr>last_activity_time := clock w'\<rparr>)"
    using assms False
    by (auto simp: check_timers_def trigger_ai_def w1_def Let_def)
  have st: "state w1 = ''WAITING_FOR_AI''"
    by (simp add: w1_def trigger_enter_fields)
  have ret: "last_activity_time w' = clock w'" if "check_timers evs w = Returned w'" for w'
    using that unfolding eq by (cases "wait_for_ai evs w1") auto
  have pen: "state w' = ''WAITING_FOR_AI''" if "check_timers evs w = Pending w'" for w'
  proof -
    from that have "wait_for_ai evs w1 = Pending w'"
      unfolding eq by (cases "wait_for_ai evs w1") auto
    from wait_pending [OF this] st show ?thesis by simp
  qed
  have an: "announced r (final (check_timers evs w)) = announced r w1" for r
  proof -
    have "announced r (final (check_timers evs w)) = announced r (final (wait_for_ai evs w1))"
      unfolding eq by (cases "wait_for_ai evs w1") (simp_all add: announced_def)
    then show ?thesis by (simp add: announced_wait)
  qed
  have ans: "\<exists>w'. check_timers evs w = Returned w' \<and> state w' = ''MONITORING''
      \<and> last_activity_time w' = clock w'" if "running w" and "answered evs w1"
  proof -
    from that have r: "running w1" by (simp add: w1_def trigger_enter_fields)
    from wait_returns [OF r that(2)] obtain v where v: "wait_for_ai evs w1 = Returned v"
      by blast
    from wait_returned [OF v r] have "state v = ''MONITORING''" by simp
    with v show ?thesis unfolding eq by simp
  qed
  have "(let w1 = trigger_enter ''STALL'' w in
           state w1 = ''WAITING_FOR_AI''
           \<and> status_get w1 ''state'' = Some (JStr ''WAITING_FOR_AI'')
           \<and> status_get w1 ''reason'' = Some (JStr ''STALL'')
           \<and> check_timers evs w
               = and_then (wait_for_ai evs w1) (\<lambda>w'. w'\<lparr>last_activity_time := clock w'\<rparr>)
           \<and> (\<forall>w'. check_timers evs w = Returned w' \<longrightarrow> last_activity_time w' = clock w')
           \<and> (\<forall>w'. check_timers evs w = Pending w' \<longrightarrow> state w' = ''WAITING_FOR_AI'')
           \<and> (running w \<and> answered evs w1 \<longrightarrow>
                (\<exists>w'. check_timers evs w = Returned w' \<and> state w' = ''MONITORING''
                   \<and> last_activity_time w' = clock w'))
           \<and> announced ''STALL'' (final (check_timers evs w)) = announced ''STALL'' w + 1
           \<and> announced ''IO_WAIT'' (final (check_timers evs w)) = announced ''IO_WAIT'' w)"
  proof -
    have "status_get w1 ''state'' = Some (JStr ''WAITING_FOR_AI'')"
      and "status_get w1 ''reason'' = Some (JStr ''STALL'')"
      by (simp_all add: w1_def trigger_enter_fields trigger_enter_reason)
    moreover have "announced ''STALL'' (final (check_timers evs w)) = announced ''STALL'' w + 1"
      and "announced ''IO_WAIT'' (final (check_timers evs w)) = announced ''IO_WAIT'' w"
      unfolding an by (simp_all add: w1_def announced_trigger_enter)
    ultimately show ?thesis
      unfolding Let_def w1_def [symmetric] using eq st ret pen ans by blast
  qed
  then show ?thesis by (simp only: if_not_P [OF False])
qed

theorem stall_transition_witness:
  "state (session0\<lparr>clock := 131, last_log_chunk := [0x6F, 0x6B, 0x0A]\<rparr>) = ''MONITORING''
   \<and> clock (session0\<lparr>clock := 131, last_log_chunk := [0x6F, 0x6B, 0x0A]\<rparr>)
       - last_activity_time (session0\<lparr>clock := 131, last_log_chunk := [0x6F, 0x6B, 0x0A]\<rparr>)
       > STALL_TIMEOUT
   \<and> status_get (trigger_enter ''STALL''
         (session0\<lparr>clock := 131, last_log_chunk := [0x6F, 0x6B, 0x0A]\<rparr>)) ''reason''
       = Some (JStr ''STALL'')
   \<and> last_activity_time (final (check_timers
         [PauseEv Idle (Put (Doc (JObj [(''state'', JStr ''AI_DONE'')]))) 0]
         (session0\<lparr>clock := 131, last_log_chunk := [0x6F, 0x6B, 0x0A]\<rparr>)))
       = clock (final (check_timers
         [PauseEv Idle (Put (Doc (JObj [(''state'', JStr ''AI_DONE'')]))) 0]
         (session0\<lparr>clock := 131, last_log_chunk := [0x6F, 0x6B, 0x0A]\<rparr>)))
   \<and> state (session0\<lparr>clock := 131\<rparr>) = ''MONITORING''
   \<and> clock (session0\<lparr>clock := 131\<rparr>) - last_activity_time (session0\<lparr>clock := 131\<rparr>)
       > STALL_TIMEOUT
   \<and> status_get (trigger_enter ''IO_WAIT'' (session0\<lparr>clock := 131\<rparr>)) ''reason''
       = Some (JStr ''IO_WAIT'')
   \<and> announced ''STALL'' (final (check_timers [] (session0\<lparr>clock := 131\<rparr>))) = 0"
proof -
  define a where "a = session0\<lparr>clock := 131, last_log_chunk := [0x6F, 0x6B, 0x0A]\<rparr>"
  define b where "b = session0\<lparr>clock := 131\<rparr>"
  define ev where "ev = PauseEv Idle (Put (Doc (JObj [(''state'', JStr ''AI_DONE'')]))) 0"
  have a1: "state a = ''MONITORING''" and a2: "clock a - last_activity_time a > STALL_TIMEOUT"
    and a3: "\<not> (last_log_chunk a \<noteq> [] \<and> \<not> endswith_nl (last_log_chunk a))"
    and a4: "running a"
    by (simp_all add: a_def session0_def STALL_TIMEOUT_def endswith_nl_def)
  have a5: "answered [ev] (trigger_enter ''STALL'' a)"
    by (simp add: ev_def pause_step_def advance_def apply_agent_def ai_done_def json_load_def
        entries_def)
  have b1: "state b = ''MONITORING''" and b2: "clock b - last_activity_time b > STALL_TIMEOUT"
    and b3: "last_log_chunk b \<noteq> [] \<and> \<not> endswith_nl (last_log_chunk b)"
    and b4: "announced ''STALL'' b = 0"
    by (simp_all add: b_def session0_def STALL_TIMEOUT_def endswith_nl_def announced_def)
  note ta = stall_transition [OF a1 a2, of "[ev]", unfolded if_not_P [OF a3] Let_def]
  from ta have "status_get (trigger_enter ''STALL'' a) ''reason'' = Some (JStr ''STALL'')"
    by blast
  moreover from ta a4 a5 obtain w' where "check_timers [ev] a = Returned w'"
    and "last_activity_time w' = clock w'"
    by blast
  then have "last_activity_time (final (check_timers [ev] a))
      = clock (final (check_timers [ev] a))"
    by simp
  moreover note tb = stall_transition [OF b1 b2, of "[]", unfolded if_P [OF b3]]
  from tb have "status_get (trigger_enter ''IO_WAIT'' b) ''reason'' = Some (JStr ''IO_WAIT'')"
    by blast
  moreover from tb have "announced ''STALL'' (final (check_timers [] b)) = announced ''STALL'' b"
    by blast
  with b4 have "announced ''STALL'' (final (check_timers [] b)) = 0"
    by (simp only:)
  ultimately show ?thesis
    using a1 a2 b1 b2 unfolding a_def b_def ev_def by blast
qed

subsection \<open>Resuming\<close>

text \<open>
  Claim C3, as the code has it. While the session is paused and running, the iteration
  of the pause loop whose read of the status file finds a record with state
  \<open>AI_DONE\<close> ends the wait in that same iteration: the status record is rewritten
  with state \<open>MONITORING\<close>, the activity clock is set to the time of the reset, the
  last chunk is emptied, and control returns. The reset comes after the poll, which
  blocks for at most the poll timeout of half a second, and after the work of the
  iteration: its time is the time at which the iteration began plus at most the poll
  timeout plus the time of that work. The assignments that follow the call in the main
  loop change nothing more, and the next check of the timers, after the next drain,
  triggers nothing.
\<close>

theorem resume_on_ai_done:
  assumes "running w"
    and "status_get (pause_step ev w) ''state'' = Some (JStr ''AI_DONE'')"
  shows "\<exists>w'. wait_for_ai (ev # evs) w = Returned w'
      \<and> state w' = ''MONITORING''
      \<and> status_get w' ''state'' = Some (JStr ''MONITORING'')
      \<and> last_activity_time w' = clock w'
      \<and> last_log_chunk w' = []
      \<and> clock w \<le> clock w'
      \<and> clock w' \<le> clock w + POLL_TIMEOUT + work_time ev
      \<and> w'\<lparr>last_log_chunk := []\<rparr> = w'
      \<and> w'\<lparr>last_activity_time := clock w'\<rparr> = w'
      \<and> (\<forall>p pevs w2. drain p w' = Inr w2 \<longrightarrow> check_timers pevs w2 = Returned w2)"
proof -
  define w' where "w' = resume (pause_step ev w)"
  from assms have r: "wait_for_ai (ev # evs) w = Returned w'"
    by (simp add: Let_def ai_done_iff w'_def)
  have f: "state w' = ''MONITORING''" "status_get w' ''state'' = Some (JStr ''MONITORING'')"
    "last_activity_time w' = clock w'" "last_log_chunk w' = []"
    by (simp_all add: w'_def resume_fields)
  have c: "clock w' \<le> clock w + POLL_TIMEOUT + work_time ev" "clock w \<le> clock w'"
    by (simp_all add: w'_def resume_fields pause_step_clock)
  have q: "check_timers pevs w2 = Returned w2" if "drain p w' = Inr w2" for p pevs w2
    using f(3,4) that by (rule no_anomaly_after_reset)
  from r f c q show ?thesis by simp
qed

theorem resume_on_ai_done_witness:
  "running (session0\<lparr>state := ''WAITING_FOR_AI''\<rparr>)
   \<and> status_get (pause_step (PauseEv Idle (Put (Doc (JObj [(''state'', JStr ''AI_DONE'')]))) 0)
        (session0\<lparr>state := ''WAITING_FOR_AI''\<rparr>)) ''state'' = Some (JStr ''AI_DONE'')
   \<and> state (final (wait_for_ai [PauseEv Idle (Put (Doc (JObj [(''state'', JStr ''AI_DONE'')]))) 0]
        (session0\<lparr>state := ''WAITING_FOR_AI''\<rparr>))) = ''MONITORING''
   \<and> last_log_chunk (final (wait_for_ai
        [PauseEv Idle (Put (Doc (JObj [(''state'', JStr ''AI_DONE'')]))) 0]
        (session0\<lparr>state := ''WAITING_FOR_AI''\<rparr>))) = []"
proof -
  define v where "v = session0\<lparr>state := ''WAITING_FOR_AI''\<rparr>"
  define ev where "ev = PauseEv Idle (Put (Doc (JObj [(''state'', JStr ''AI_DONE'')]))) 0"
  have h1: "running v"
    by (simp add: v_def session0_def)
  have h2: "status_get (pause_step ev v) ''state'' = Some (JStr ''AI_DONE'')"
    by (simp add: ev_def pause_step_def advance_def apply_agent_def status_get_def json_load_def
        entries_def)
  from resume_on_ai_done [OF h1 h2, of "[]"]
  obtain w' where "wait_for_ai [ev] v = Returned w'" and "state w' = ''MONITORING''"
    and "last_log_chunk w' = []"
    by blast
  then have "state (final (wait_for_ai [ev] v)) = ''MONITORING''
      \<and> last_log_chunk (final (wait_for_ai [ev] v)) = []"
    by simp
  with h1 h2 show ?thesis unfolding v_def ev_def by blast
qed

text \<open>
  The claim as stated bounds the time by the poll interval alone. It fails for the
  paused session \<open>paused_done\<close>, whose status file already holds \<open>AI_DONE\<close> at time
  103: when nothing arrives on the PTY the poll returns at its timeout, and with one
  millisecond for the read and the rewrite the record is rewritten and the activity
  clock reset at 103.501, later than 500 ms after the record was there.
\<close>

theorem resume_later_than_poll_interval:
  "status_get paused_done ''state'' = Some (JStr ''AI_DONE'')
   \<and> clock paused_done = 103
   \<and> wait_for_ai [PauseEv Idle NoAction (1 / 1000)] paused_done
       = Returned (resume (pause_step (PauseEv Idle NoAction (1 / 1000)) paused_done))
   \<and> last_activity_time (final (wait_for_ai [PauseEv Idle NoAction (1 / 1000)] paused_done))
       = 103 + 1 / 2 + 1 / 1000
   \<and> \<not> (clock (final (wait_for_ai [PauseEv Idle NoAction (1 / 1000)] paused_done))
          \<le> clock paused_done + POLL_TIMEOUT)"
proof -
  define ev where "ev = PauseEv Idle NoAction (1 / 1000)"
  have s: "status_get paused_done ''state'' = Some (JStr ''AI_DONE'')"
    by (simp add: paused_done_def session0_def status_get_def json_load_def entries_def)
  have c: "clock paused_done = 103" and r: "running paused_done"
    by (simp_all add: paused_done_def session0_def)
  have e: "entries (pause_step ev paused_done) = entries paused_done"
    by (simp add: ev_def pause_step_def apply_agent_def pause_drain_def entries_frame
        split: option.splits)
  have k: "clock (pause_step ev paused_done) = 103 + 1 / 2 + 1 / 1000"
    by (simp add: ev_def pause_step_def apply_agent_def pause_drain_def advance_def
        POLL_TIMEOUT_def c split: option.splits)
  from s have "ai_done (pause_step ev paused_done) = Some True"
    by (simp add: ai_done_iff status_get_cong [OF e])
  with r have w: "wait_for_ai [ev] paused_done = Returned (resume (pause_step ev paused_done))"
    by (simp add: Let_def)
  have l: "last_activity_time (final (wait_for_ai [ev] paused_done)) = 103 + 1 / 2 + 1 / 1000"
    and cl: "clock (final (wait_for_ai [ev] paused_done)) = 103 + 1 / 2 + 1 / 1000"
    unfolding w by (simp_all add: resume_fields k)
  have n: "\<not> (clock (final (wait_for_ai [ev] paused_done)) \<le> clock paused_done + POLL_TIMEOUT)"
    unfolding cl c POLL_TIMEOUT_def by simp
  from s c w l n show ?thesis
    unfolding ev_def by blast
qed

subsection \<open>The drain of the pause loop\<close>

lemma pause_drain_frame_eq:
  "(pause_drain p w)\<lparr>clock := clock w, console := console w, runner_dir := runner_dir w\<rparr> = w"
  by (cases p)
     (simp_all add: pause_drain_def file_defs Let_def
        split: option.splits node.splits content.splits)

lemma log_file_neq: "log_file \<noteq> status_file" "log_file \<noteq> pid_file" "log_file \<noteq> pipe_file"
  by (simp_all add: log_file_def status_file_def pid_file_def pipe_file_def)

lemma log_output_entries:
  "name \<noteq> log_file \<Longrightarrow> entries (log_output t w) name = entries w name"
  by (simp add: log_output_def write_text_def entries_def
      split: option.splits node.splits content.splits)

lemma pause_drain_entries:
  "name \<noteq> log_file \<Longrightarrow> entries (pause_drain p w) name = entries w name"
  by (cases p)
     (simp_all add: pause_drain_def Let_def log_output_entries entries_frame
        split: option.splits)

lemma log_text_log_output: "log_text (log_output t w) = log_text w @ t"
  by (simp add: log_text_def log_output_def write_text_def entries_def
      split: option.splits node.splits content.splits)

lemma log_text_frame: "entries w' log_file = entries w log_file \<Longrightarrow> log_text w' = log_text w"
  by (simp add: log_text_def)

lemma log_text_pause_drain:
  "log_text (pause_drain p w) = log_text w @ concat (if master_fd w = None then [] else chunk_of p)"
  by (cases p)
     (simp_all add: pause_drain_def Let_def log_text_log_output
        log_text_frame [OF arg_cong [OF entries_frame(3), of "\<lambda>f. f log_file"]]
        log_text_frame [OF arg_cong [OF entries_frame(4), of "\<lambda>f. f log_file"]]
        split: option.splits)

lemma log_text_apply_agent: "log_text (apply_agent a w) = log_text w"
  by (cases a) (simp_all add: apply_agent_def log_text_def log_file_neq entries_def)

lemma log_text_pause_step:
  "log_text (pause_step (PauseEv p a dt) w)
     = log_text w @ concat (if master_fd w = None then [] else chunk_of p)"
  by (simp add: pause_step_def log_text_apply_agent log_text_pause_drain
      log_text_frame [OF arg_cong [OF entries_frame(3), of "\<lambda>f. f log_file"]])

lemma pause_output:
  assumes "master_fd w \<noteq> None"
  shows "console (pause_drain p w) = console w @ map Write (chunk_of p)"
    and "log_text (pause_drain p w) = log_text w @ concat (chunk_of p)"
    and "console (pause_step (PauseEv p a dt) w) = console w @ map Write (chunk_of p)"
    and "log_text (pause_step (PauseEv p a dt) w) = log_text w @ concat (chunk_of p)"
  using assms
  by (auto simp: pause_drain_console log_text_pause_drain pause_step_console
      log_text_pause_step)

lemma log_text_update_status: "log_text (update_status st r i w) = log_text w"
  by (simp add: update_status_def Let_def json_dump_def open_w_def log_text_def log_file_neq
      entries_def)

lemma resume_output:
  "log_text (resume w) = log_text w"
  "console (resume w) = console w @ [Print ''[Runner] AI finished. Resuming...'']"
proof -
  have "log_text (resume w) = log_text (print ''[Runner] AI finished. Resuming...'' w)"
    by (simp add: resume_def Let_def log_text_update_status
        log_text_frame [OF arg_cong [OF entries_frame(5), of "\<lambda>f. f log_file"]])
  also have "\<dots> = log_text w"
    by (rule log_text_frame) (simp add: entries_frame)
  finally show "log_text (resume w) = log_text w" .
  show "console (resume w) = console w @ [Print ''[Runner] AI finished. Resuming...'']"
    by (simp add: resume_def Let_def update_status_fields print_fields)
qed

lemma drain_same_output:
  "console (pause_drain p w) = console (case drain p w of Inl x \<Rightarrow> x | Inr x \<Rightarrow> x)
     \<and> runner_dir (pause_drain p w) = runner_dir (case drain p w of Inl x \<Rightarrow> x | Inr x \<Rightarrow> x)"
  if "master_fd w \<noteq> None"
  using that
  by (cases p) (auto simp: pause_drain_def drain_def Let_def)

lemma wait_pending_output:
  assumes "master_fd w \<noteq> None" and "wait_for_ai evs w = Pending w'"
  shows "console w' = console w @ map Write (pause_chunks evs)
     \<and> log_text w' = log_text w @ concat (pause_chunks evs)"
  using assms
proof (induction evs arbitrary: w)
  case Nil
  then show ?case by (simp split: if_splits)
next
  case (Cons ev evs)
  obtain p a dt where ev: "ev = PauseEv p a dt" by (cases ev)
  from Cons.prems(2) have r: "wait_for_ai evs (pause_step ev w) = Pending w'"
    by (simp add: Let_def split: if_splits)
  from Cons.prems(1) have m: "master_fd (pause_step ev w) \<noteq> None"
    by (simp add: pause_step_fields)
  from Cons.IH [OF m r] show ?case
    by (simp add: ev pause_output(3,4) [OF Cons.prems(1)])
qed

lemma wait_returned_output:
  assumes "master_fd w \<noteq> None" and "running w" and "wait_for_ai evs w = Returned w'"
  shows "\<exists>n. n \<le> length evs
     \<and> console w' = console w @ map Write (pause_chunks (take n evs))
          @ [Print ''[Runner] AI finished. Resuming...'']
     \<and> log_text w' = log_text w @ concat (pause_chunks (take n evs))"
  using assms
proof (induction evs arbitrary: w)
  case Nil
  then show ?case by simp
next
  case (Cons ev evs)
  obtain p a dt where ev: "ev = PauseEv p a dt" by (cases ev)
  show ?case
  proof (cases "ai_done (pause_step ev w) = Some True")
    case True
    with Cons.prems have "w' = resume (pause_step ev w)" by (simp add: Let_def)
    then have "console w' = console w @ map Write (pause_chunks (take 1 (ev # evs)))
          @ [Print ''[Runner] AI finished. Resuming...'']
       \<and> log_text w' = log_text w @ concat (pause_chunks (take 1 (ev # evs)))"
      by (simp add: ev resume_output pause_output(3,4) [OF Cons.prems(1)])
    moreover have "1 \<le> length (ev # evs)" by simp
    ultimately show ?thesis by blast
  next
    case False
    with Cons.prems have r: "wait_for_ai evs (pause_step ev w) = Returned w'"
      by (simp add: Let_def)
    from Cons.prems have m: "master_fd (pause_step ev w) \<noteq> None" "running (pause_step ev w)"
      by (simp_all add: pause_step_fields)
    from Cons.IH [OF m r] obtain n where n: "n \<le> length evs"
      "console w' = console (pause_step ev w) @ map Write (pause_chunks (take n evs))
          @ [Print ''[Runner] AI finished. Resuming...'']"
      "log_text w' = log_text (pause_step ev w) @ concat (pause_chunks (take n evs))"
      by blast
    from n have "Suc n \<le> length (ev # evs)
       \<and> console w' = console w @ map Write (pause_chunks (take (Suc n) (ev # evs)))
          @ [Print ''[Runner] AI finished. Resuming...'']
       \<and> log_text w' = log_text w @ concat (pause_chunks (take (Suc n) (ev # evs)))"
      by (simp add: ev pause_output(3,4) [OF Cons.prems(1)])
    then show ?thesis by blast
  qed
qed

text \<open>
  Claim C7. With the PTY master open, one drain of the pause loop leaves the console
  and the runner directory exactly as the drain of the main loop does on the same
  poll: the decoded chunk is written to the console and appended to the log. Over a
  whole pause, the console and the log receive every chunk the polls delivered, in
  order: all of them while the wait is pending, and those of the iterations that ran
  (followed by the resume message on the console) when the wait has returned.
\<close>

theorem pause_echo_and_log:
  assumes "master_fd w \<noteq> None"
  shows "console (pause_drain p w) = console (case drain p w of Inl x \<Rightarrow> x | Inr x \<Rightarrow> x)
     \<and> runner_dir (pause_drain p w) = runner_dir (case drain p w of Inl x \<Rightarrow> x | Inr x \<Rightarrow> x)
     \<and> console (pause_drain p w) = console w @ map Write (chunk_of p)
     \<and> log_text (pause_drain p w) = log_text w @ concat (chunk_of p)
     \<and> (\<forall>w'. wait_for_ai evs w = Pending w' \<longrightarrow>
           console w' = console w @ map Write (pause_chunks evs)
           \<and> log_text w' = log_text w @ concat (pause_chunks evs))
     \<and> (\<forall>w'. running w \<and> wait_for_ai evs w = Returned w' \<longrightarrow>
           (\<exists>n. n \<le> length evs
              \<and> console w' = console w @ map Write (pause_chunks (take n evs))
                   @ [Print ''[Runner] AI finished. Resuming...'']
              \<and> log_text w' = log_text w @ concat (pause_chunks (take n evs))))"
  using drain_same_output [OF assms, of p] wait_pending_output [OF assms, of evs]
    wait_returned_output [OF assms, of evs] pause_output(1,2) [OF assms, of p]
  by blast

theorem pause_echo_and_log_witness:
  "master_fd (session0\<lparr>state := ''WAITING_FOR_AI''\<rparr>) \<noteq> None
   \<and> console (pause_drain (Ready 0 [0x68, 0x69]) (session0\<lparr>state := ''WAITING_FOR_AI''\<rparr>))
       = [Write [0x68, 0x69]]
   \<and> log_text (pause_drain (Ready 0 [0x68, 0x69]) (session0\<lparr>state := ''WAITING_FOR_AI''\<rparr>))
       = [0x68, 0x69]"
proof -
  define v where "v = session0\<lparr>state := ''WAITING_FOR_AI''\<rparr>"
  have h: "master_fd v \<noteq> None"
    by (simp add: v_def session0_def)
  have d: "decode_replace [0x68, 0x69 :: byte] = [0x68, 0x69]"
    by (simp add: decode_replace.simps)
  have c: "chunk_of (Ready 0 [0x68, 0x69]) = [[0x68, 0x69]]"
    by (simp add: os_read_def d)
  have e: "console v = []" "log_text v = []"
    by (simp_all add: v_def session0_def log_text_def entries_def log_file_def status_file_def)
  from pause_echo_and_log [OF h, of "Ready 0 [0x68, 0x69]" "[]"]
  have a: "console (pause_drain (Ready 0 [0x68, 0x69]) v)
      = console v @ map Write (chunk_of (Ready 0 [0x68, 0x69]))"
    and b: "log_text (pause_drain (Ready 0 [0x68, 0x69]) v)
      = log_text v @ concat (chunk_of (Ready 0 [0x68, 0x69]))"
    by blast+
  have "console (pause_drain (Ready 0 [0x68, 0x69]) v) = [Write [0x68, 0x69]]
      \<and> log_text (pause_drain (Ready 0 [0x68, 0x69]) v) = [0x68, 0x69]"
    unfolding a b c e by simp
  with h show ?thesis unfolding v_def by blast
qed

text \<open>
  Claim C10. The drain of the pause loop changes nothing but the console, the runner
  directory and the clock, and in the directory nothing but the log file. While the
  wait is pending the activity clock and the last chunk are what they were when the
  pause began, whatever output arrived; when the wait of a running session has
  returned, the resume step has set the activity clock to the current time and emptied
  the last chunk, so that the next check of the timers triggers nothing.
\<close>

theorem pause_drain_restricted:
  "(pause_drain p w)\<lparr>clock := clock w, console := console w, runner_dir := runner_dir w\<rparr> = w
   \<and> (\<forall>name. name \<noteq> log_file \<longrightarrow> entries (pause_drain p w) name = entries w name)
   \<and> (\<forall>w'. wait_for_ai evs w = Pending w' \<longrightarrow>
         last_activity_time w' = last_activity_time w \<and> last_log_chunk w' = last_log_chunk w)
   \<and> (\<forall>w'. running w \<and> wait_for_ai evs w = Returned w' \<longrightarrow>
         last_activity_time w' = clock w' \<and> last_log_chunk w' = []
         \<and> (\<forall>q pevs w2. drain q w' = Inr w2 \<longrightarrow> check_timers pevs w2 = Returned w2))"
proof -
  have "last_activity_time w' = clock w' \<and> last_log_chunk w' = []
      \<and> (\<forall>q pevs w2. drain q w' = Inr w2 \<longrightarrow> check_timers pevs w2 = Returned w2)"
    if "running w" and "wait_for_ai evs w = Returned w'" for w'
  proof -
    from wait_returned [OF that(2,1)]
    have f: "last_activity_time w' = clock w'" "last_log_chunk w' = []" by simp_all
    then show ?thesis by (auto intro: no_anomaly_after_reset)
  qed
  moreover have "\<forall>name. name \<noteq> log_file \<longrightarrow> entries (pause_drain p w) name = entries w name"
    by (simp add: pause_drain_entries)
  moreover have "\<forall>w'. wait_for_ai evs w = Pending w' \<longrightarrow>
         last_activity_time w' = last_activity_time w \<and> last_log_chunk w' = last_log_chunk w"
    using wait_pending [of evs w] by blast
  ultimately show ?thesis
    using pause_drain_frame_eq [where p = p and w = w] by blast
qed

theorem pause_drain_restricted_witness:
  "(pause_drain (Ready 0 [0x68, 0x69]) (session0\<lparr>state := ''WAITING_FOR_AI''\<rparr>))
      \<lparr>clock := clock session0, console := console session0,
       runner_dir := runner_dir session0\<rparr> = session0\<lparr>state := ''WAITING_FOR_AI''\<rparr>
   \<and> last_activity_time (pause_drain (Ready 0 [0x68, 0x69])
        (session0\<lparr>state := ''WAITING_FOR_AI''\<rparr>)) = 100
   \<and> last_log_chunk (pause_drain (Ready 0 [0x68, 0x69])
        (session0\<lparr>state := ''WAITING_FOR_AI''\<rparr>)) = [0x3F, 0x20]"
proof -
  define v where "v = session0\<lparr>state := ''WAITING_FOR_AI''\<rparr>"
  define u where "u = pause_drain (Ready 0 [0x68, 0x69]) v"
  have f: "clock v = clock session0" "console v = console session0"
    "runner_dir v = runner_dir session0" "last_activity_time v = 100"
    "last_log_chunk v = [0x3F, 0x20]"
    by (simp_all add: v_def session0_def)
  from pause_drain_restricted [where p = "Ready 0 [0x68, 0x69]" and w = v and evs = "[]"]
  have e: "u\<lparr>clock := clock v, console := console v, runner_dir := runner_dir v\<rparr> = v"
    unfolding u_def by blast
  have "last_activity_time u
      = last_activity_time (u\<lparr>clock := clock v, console := console v, runner_dir := runner_dir v\<rparr>)"
    and "last_log_chunk u
      = last_log_chunk (u\<lparr>clock := clock v, console := console v, runner_dir := runner_dir v\<rparr>)"
    by simp_all
  with e f have "last_activity_time u = 100" and "last_log_chunk u = [0x3F, 0x20]"
    by simp_all
  with e f show ?thesis unfolding u_def v_def by simp
qed

subsection \<open>A fresh runner directory\<close>

lemma status_data_frame:
  "status_data st r i (w\<lparr>state := s, runner_dir := d\<rparr>) = status_data st r i w"
  "status_data st r i (w\<lparr>runner_dir := d\<rparr>) = status_data st r i w"
  "status_data st r i (w\<lparr>state := s\<rparr>) = status_data st r i w"
  by (simp_all add: status_data_def input_pipe_def runner_dir_path_def)

lemma file_names_distinct:
  "pipe_file \<noteq> pid_file" "pipe_file \<noteq> status_file" "pid_file \<noteq> status_file"
  "pid_file \<noteq> pipe_file" "status_file \<noteq> pipe_file" "status_file \<noteq> pid_file"
  by (simp_all add: pipe_file_def pid_file_def status_file_def)

lemma file_mode: "S_IRUSR OR S_IWUSR OR S_IRGRP OR S_IWGRP = 432"
  by (simp add: S_IRUSR_def S_IWUSR_def S_IRGRP_def S_IWGRP_def)

lemma setup_dirs_empty:
  assumes "runner_dir w = None"
  shows "setup_dirs w =
     Inr (w\<lparr>state := ''MONITORING'',
       runner_dir := Some [pipe_file \<mapsto> Fifo 432,
         pid_file \<mapsto> File (Text (text_of (str_int (runner_pid w)))),
         status_file \<mapsto> File (Doc (status_data ''MONITORING'' None (Some ''Starting up'') w))]\<rparr>)"
  using assms
  by (simp add: setup_dirs_def makedirs_def mkfifo_def chmod_def in_dir_def file_mode
      write_text_def open_w_def update_status_def json_dump_def entries_def Let_def
      status_data_frame)

lemma setup_dirs_result:
  "setup_dirs w =
     Inr (w\<lparr>state := ''MONITORING'',
       runner_dir := Some [pipe_file \<mapsto> Fifo 432,
         pid_file \<mapsto> File (Text (text_of (str_int (runner_pid w)))),
         status_file \<mapsto> File (Doc (status_data ''MONITORING'' None (Some ''Starting up'') w))]\<rparr>)"
proof (cases "runner_dir w")
  case None
  then show ?thesis by (rule setup_dirs_empty)
next
  case (Some d)
  then have "setup_dirs w = setup_dirs (rmtree w)"
    by (simp add: setup_dirs_def rmtree_def)
  also have "\<dots> = Inr ((rmtree w)\<lparr>state := ''MONITORING'',
       runner_dir := Some [pipe_file \<mapsto> Fifo 432,
         pid_file \<mapsto> File (Text (text_of (str_int (runner_pid (rmtree w))))),
         status_file \<mapsto> File (Doc (status_data ''MONITORING'' None (Some ''Starting up'')
           (rmtree w)))]\<rparr>)"
    by (rule setup_dirs_empty) (simp add: rmtree_def)
  finally show ?thesis by (simp add: rmtree_def status_data_frame)
qed

text \<open>
  Claim C9. \<^verbatim>\<open>setup_dirs\<close> on a session whose runner directory exists, whatever it
  holds, gives the same state as on a session that has none, and it succeeds: the old
  directory is removed with all its entries (\<^verbatim>\<open>rmtree\<close> leaves no directory) before
  the new one is made, and without that removal \<^verbatim>\<open>os.makedirs\<close> would raise, as
  \<^verbatim>\<open>os.mkfifo\<close> would without a directory. Afterwards the directory holds exactly
  the input pipe, the pid file and the status record (state \<open>MONITORING\<close>, info
  \<open>Starting up\<close>); the pipe's mode is 432, octal 660, read and write for owner and
  group, whatever the umask; there is no log file until the first output is logged.
\<close>

theorem setup_dirs_fresh:
  "setup_dirs (w\<lparr>runner_dir := Some d\<rparr>) = setup_dirs (w\<lparr>runner_dir := None\<rparr>)
   \<and> setup_dirs w =
       Inr (w\<lparr>state := ''MONITORING'',
         runner_dir := Some [pipe_file \<mapsto> Fifo (S_IRUSR OR S_IWUSR OR S_IRGRP OR S_IWGRP),
           pid_file \<mapsto> File (Text (text_of (str_int (runner_pid w)))),
           status_file \<mapsto>
             File (Doc (status_data ''MONITORING'' None (Some ''Starting up'') w))]\<rparr>)
   \<and> S_IRUSR OR S_IWUSR OR S_IRGRP OR S_IWGRP = 432
   \<and> runner_dir (rmtree (w\<lparr>runner_dir := Some d\<rparr>)) = None
   \<and> makedirs (w\<lparr>runner_dir := Some d\<rparr>) = Inl FileExistsError
   \<and> mkfifo pipe_file (w\<lparr>runner_dir := None\<rparr>) = Inl FileNotFoundError"
  by (simp add: setup_dirs_result status_data_frame file_mode rmtree_def makedirs_def mkfifo_def)

theorem setup_dirs_fresh_witness:
  "setup_dirs session0 = setup_dirs (session0\<lparr>runner_dir := None\<rparr>)
   \<and> setup_dirs session0 =
       Inr (session0\<lparr>state := ''MONITORING'',
         runner_dir := Some [pipe_file \<mapsto> Fifo 432,
           pid_file \<mapsto> File (Text (text_of (str_int 4000))),
           status_file \<mapsto>
             File (Doc (status_data ''MONITORING'' None (Some ''Starting up'') session0))]\<rparr>)
   \<and> makedirs session0 = Inl FileExistsError"
proof -
  have "session0\<lparr>runner_dir := runner_dir session0\<rparr> = session0"
    by simp
  moreover have "runner_dir session0 = Some (entries session0)"
    by (simp add: session0_def entries_def)
  ultimately have e: "session0\<lparr>runner_dir := Some (entries session0)\<rparr> = session0"
    by simp
  have m: "S_IRUSR OR S_IWUSR OR S_IRGRP OR S_IWGRP = 432"
    by (simp add: S_IRUSR_def S_IWUSR_def S_IRGRP_def S_IWGRP_def)
  have p: "runner_pid session0 = 4000"
    by (simp add: session0_def)
  from setup_dirs_fresh [where w = session0 and d = "entries session0"]
  have "setup_dirs (session0\<lparr>runner_dir := Some (entries session0)\<rparr>)
        = setup_dirs (session0\<lparr>runner_dir := None\<rparr>)"
    and "setup_dirs session0 =
       Inr (session0\<lparr>state := ''MONITORING'',
         runner_dir := Some [pipe_file \<mapsto> Fifo (S_IRUSR OR S_IWUSR OR S_IRGRP OR S_IWGRP),
           pid_file \<mapsto> File (Text (text_of (str_int (runner_pid session0)))),
           status_file \<mapsto>
             File (Doc (status_data ''MONITORING'' None (Some ''Starting up'') session0))]\<rparr>)"
    and "makedirs (session0\<lparr>runner_dir := Some (entries session0)\<rparr>) = Inl FileExistsError"
    by blast+
  then show ?thesis unfolding e m p by blast
qed

subsection \<open>Writing the status record\<close>

text \<open>
  Claim C4, as the code has it. \<^verbatim>\<open>update_status\<close> opens \<^verbatim>\<open>status.json\<close> for
  writing, which truncates the file in place, and then writes the new record into that
  same file through a buffered file object; there is no temporary file and no rename.
  So the file is first empty, then, for a record larger than the buffer, holds proper
  prefixes of the record's text, and holds the new record when the call is over. None
  of the contents before the last can be read as a record: \<^verbatim>\<open>json.load\<close> raises
  on each, and the reader of the pause loop takes that as no answer. No other file of
  the directory is touched.
\<close>

theorem update_status_in_place:
  "length (update_status_steps st r i partial w) = length partial + 2
   \<and> last (update_status_steps st r i partial w) = update_status st r i w
   \<and> entries (hd (update_status_steps st r i partial w)) status_file = Some (File (Text []))
   \<and> entries (update_status st r i w) status_file = Some (File (Doc (status_data st r i w)))
   \<and> (\<forall>v \<in> set (butlast (update_status_steps st r i partial w)).
         json_load status_file v = None \<and> ai_done v = None)
   \<and> (\<forall>v \<in> set (update_status_steps st r i partial w).
         \<forall>name. name \<noteq> status_file \<longrightarrow> entries v name = entries w name)"
proof -
  define w2 where "w2 = open_w status_file (w\<lparr>state := st\<rparr>)"
  define fin where "fin = json_dump status_file (status_data st r i w) w2"
  have steps: "update_status_steps st r i partial w
      = w2 # map (\<lambda>p. write_text status_file p w2) partial @ [fin]"
    by (simp add: update_status_steps_def Let_def w2_def fin_def status_data_frame)
  have bl: "butlast (update_status_steps st r i partial w)
      = w2 # map (\<lambda>p. write_text status_file p w2) partial"
    unfolding steps by (simp add: butlast_append)
  have fin': "fin = update_status st r i w"
    by (simp add: fin_def w2_def update_status_def Let_def status_data_frame)
  have e2: "entries w2 status_file = Some (File (Text []))"
    by (simp add: w2_def open_w_def entries_def)
  have ep: "entries (write_text status_file p w2) status_file = Some (File (Text p))" for p
    by (simp add: write_text_def entries_def)
  have ef: "entries fin status_file = Some (File (Doc (status_data st r i w)))"
    by (simp add: fin_def json_dump_def entries_def)
  have unread: "json_load status_file v = None \<and> ai_done v = None"
    if "v \<in> set (w2 # map (\<lambda>p. write_text status_file p w2) partial)" for v
    using that e2 ep by (auto simp: json_load_def ai_done_def)
  have others: "entries v name = entries w name"
    if "v \<in> set (update_status_steps st r i partial w)" and "name \<noteq> status_file" for v name
    using that unfolding steps
    by (auto simp: w2_def fin_def open_w_def write_text_def json_dump_def entries_def)
  have "last (update_status_steps st r i partial w) = fin"
    unfolding steps by simp
  moreover have "hd (update_status_steps st r i partial w) = w2"
    unfolding steps by simp
  moreover have "length (update_status_steps st r i partial w) = length partial + 2"
    unfolding steps by simp
  ultimately show ?thesis
    using e2 ef unread others unfolding bl fin' [symmetric] by simp
qed

theorem update_status_in_place_witness:
  "length (update_status_steps ''MONITORING'' None None [[123, 10]] session0) = 3
   \<and> ai_done (hd (update_status_steps ''MONITORING'' None None [[123, 10]] session0)) = None
   \<and> ai_done (update_status_steps ''MONITORING'' None None [[123, 10]] session0 ! 1) = None
   \<and> entries (last (update_status_steps ''MONITORING'' None None [[123, 10]] session0))
        status_file
       = Some (File (Doc (status_data ''MONITORING'' None None session0)))"
proof -
  define steps where "steps = update_status_steps ''MONITORING'' None None [[123, 10]] session0"
  note t = update_status_in_place [of "''MONITORING''" None None "[[123, 10]]" session0,
      folded steps_def]
  from t have l: "length steps = 3" by simp
  from t have u: "\<forall>v \<in> set (butlast steps). json_load status_file v = None \<and> ai_done v = None"
    by blast
  from l have "hd steps \<in> set (butlast steps)" and "steps ! 1 \<in> set (butlast steps)"
    by (cases steps; cases "tl steps"; cases "tl (tl steps)"; simp)+
  with u have "ai_done (hd steps) = None" and "ai_done (steps ! 1) = None"
    by blast+
  moreover from t have "entries (last steps) status_file
      = Some (File (Doc (status_data ''MONITORING'' None None session0)))"
    by simp
  ultimately show ?thesis using l unfolding steps_def by blast
qed

text \<open>
  The claim as stated, that a reader can only ever find the old record or the new one,
  fails for the write that enters \<open>WAITING_FOR_AI\<close> from \<open>session0\<close>, even for a
  record that fits the buffer: between the two the file is empty.
\<close>

theorem update_status_not_atomic:
  "\<not> (\<forall>c \<in> set (update_status_contents ''WAITING_FOR_AI'' (Some ''STALL'') None [] session0).
        c = entries session0 status_file
        \<or> c = entries (update_status ''WAITING_FOR_AI'' (Some ''STALL'') None session0) status_file)"
  by (simp add: update_status_contents_def update_status_steps_def update_status_def Let_def
      open_w_def json_dump_def entries_def session0_def)

subsection \<open>Errors inside the loops\<close>

lemma pause_drain_failing: "pause_drain (Failing d) w = pause_drain (Ready d []) w"
  by (simp add: pause_drain_def os_read_def split: option.splits)

lemma fold_pause_step_fields:
  "running (fold pause_step evs w) = running w"
  "state (fold pause_step evs w) = state w"
  "last_activity_time (fold pause_step evs w) = last_activity_time w"
  "last_log_chunk (fold pause_step evs w) = last_log_chunk w"
  by (induction evs arbitrary: w) (simp_all add: pause_step_fields)

lemma messages_pause_step: "messages (pause_step ev w) = messages w"
proof (cases ev)
  case (PauseEv p a dt)
  have "filter is_message (map Write xs) = []" for xs
    by (induction xs) simp_all
  then show ?thesis
    unfolding PauseEv messages_def pause_step_console by simp
qed

lemma messages_fold: "messages (fold pause_step evs w) = messages w"
  by (induction evs arbitrary: w) (simp_all add: messages_pause_step)

lemma read_fails_unanswered: "read_fails evs w \<Longrightarrow> \<not> answered evs w"
  by (induction evs arbitrary: w) auto

lemma wait_unanswered:
  assumes "running w" and "\<not> answered evs w"
  shows "wait_for_ai (evs @ evs') w = wait_for_ai evs' (fold pause_step evs w)"
  using assms
proof (induction evs arbitrary: w)
  case Nil
  then show ?case by simp
next
  case (Cons ev evs)
  from Cons.prems have n: "ai_done (pause_step ev w) \<noteq> Some True"
    and a: "\<not> answered evs (pause_step ev w)"
    by simp_all
  from Cons.prems(1) have r: "running (pause_step ev w)"
    by (simp add: pause_step_fields)
  from Cons.prems(1) n
  have "wait_for_ai ((ev # evs) @ evs') w = wait_for_ai (evs @ evs') (pause_step ev w)"
    by (simp add: Let_def)
  with Cons.IH [OF r a] show ?case by simp
qed

lemma gate_error_fields:
  assumes "running w"
  shows "running (gate_error w)"
    and "console (gate_error w) = console w @ [PrintGateError]"
    and "clock (gate_error w) = clock w + POLL_TIMEOUT"
    and "pty_in (gate_error w) = pty_in w"
  using assms by (simp_all add: gate_error_def advance_def)

lemma gate_error_funpow:
  assumes "running w"
  shows "running ((gate_error ^^ n) w)"
    and "console ((gate_error ^^ n) w) = console w @ replicate n PrintGateError"
    and "clock ((gate_error ^^ n) w) = clock w + real n * POLL_TIMEOUT"
    and "pty_in ((gate_error ^^ n) w) = pty_in w"
proof -
  have "running ((gate_error ^^ n) w)
      \<and> console ((gate_error ^^ n) w) = console w @ replicate n PrintGateError
      \<and> clock ((gate_error ^^ n) w) = clock w + real n * POLL_TIMEOUT
      \<and> pty_in ((gate_error ^^ n) w) = pty_in w"
  proof (induction n)
    case 0
    from assms show ?case by simp
  next
    case (Suc n)
    then show ?case
      by (simp add: gate_error_fields replicate_append_same algebra_simps)
  qed
  then show "running ((gate_error ^^ n) w)"
    and "console ((gate_error ^^ n) w) = console w @ replicate n PrintGateError"
    and "clock ((gate_error ^^ n) w) = clock w + real n * POLL_TIMEOUT"
    and "pty_in ((gate_error ^^ n) w) = pty_in w"
    by simp_all
qed

lemma gate_loop_fail:
  assumes "running w" and "gate_fails e"
  shows "gate_loop (e # es) w = gate_loop es (gate_error w)"
  using assms by (cases e rule: gate_fails.cases) simp_all

lemma gate_loop_fails:
  assumes "running w" and "list_all gate_fails fs"
  shows "gate_loop (fs @ es) w = gate_loop es ((gate_error ^^ length fs) w)"
  using assms
proof (induction fs arbitrary: w)
  case Nil
  then show ?case by simp
next
  case (Cons f fs)
  have "gate_loop (f # (fs @ es)) w = gate_loop (fs @ es) (gate_error w)"
    using Cons.prems by (intro gate_loop_fail) simp_all
  then have "gate_loop ((f # fs) @ es) w = gate_loop (fs @ es) (gate_error w)"
    by simp
  also from Cons.prems have "\<dots> = gate_loop es ((gate_error ^^ length fs) (gate_error w))"
    by (intro Cons.IH) (simp_all add: gate_error_fields)
  finally show ?case by (simp add: funpow_swap1)
qed

lemma gate_reads_running:
  assumes "running w"
  shows "case gate_reads rs w of Closed v \<Rightarrow> running v | Raised v \<Rightarrow> running v
     | Blocked v \<Rightarrow> running v"
  using assms
proof (induction rs arbitrary: w)
  case Nil
  then show ?case by simp
next
  case (Cons r rs)
  have "running (inject t bs w)" for t bs
    using Cons.prems by (simp add: inject_def)
  with Cons.prems Cons.IH show ?case
    by (auto split: pipe_read.splits option.splits)
qed

lemma gate_loop_stays:
  assumes "running w"
  shows "\<exists>v. gate_loop es w = Pending v \<and> running v"
  using assms
proof (induction es arbitrary: w)
  case Nil
  then show ?case by simp
next
  case (Cons e es)
  show ?case
  proof (cases e)
    case OpenFails
    with Cons.prems Cons.IH [of "gate_error w"] show ?thesis
      by (simp add: gate_error_fields)
  next
    case (Writer rs)
    from gate_reads_running [OF Cons.prems, of rs] show ?thesis
    proof (cases "gate_reads rs w")
      case (Closed v)
      with \<open>case gate_reads rs w of Closed v \<Rightarrow> running v | Raised v \<Rightarrow> running v
         | Blocked v \<Rightarrow> running v\<close> have "running v" by simp
      with Cons.prems Cons.IH [of v] Writer Closed show ?thesis by simp
    next
      case (Raised v)
      with \<open>case gate_reads rs w of Closed v \<Rightarrow> running v | Raised v \<Rightarrow> running v
         | Blocked v \<Rightarrow> running v\<close> have "running v" by simp
      then have "running (gate_error v)" by (simp add: gate_error_fields)
      with Cons.prems Cons.IH [of "gate_error v"] Writer Raised show ?thesis by simp
    next
      case (Blocked v)
      with \<open>case gate_reads rs w of Closed v \<Rightarrow> running v | Raised v \<Rightarrow> running v
         | Blocked v \<Rightarrow> running v\<close> have "running v" by simp
      with Cons.prems Writer Blocked show ?thesis by simp
    qed
  qed
qed

lemma cleanup_fields:
  "running (cleanup alive w) = False"
  "last (console (cleanup alive w)) = Print ''[Runner] Done.''"
  by (simp_all add: cleanup_def Let_def print_def run_openclaw_cmd_def unlink_quietly_def
      split: option.splits node.splits)

lemma cleanup_unlinks:
  assumes "entries w pipe_file = Some (Fifo m)"
  shows "entries (cleanup alive w) pipe_file = None"
  using assms
  by (simp add: cleanup_def Let_def print_def run_openclaw_cmd_def unlink_quietly_def
      entries_def split: option.splits)

lemma update_status_entries:
  "name \<noteq> status_file \<Longrightarrow> entries (update_status st r i w) name = entries w name"
  by (simp add: update_status_def Let_def json_dump_def open_w_def entries_def)

lemma run_read_error:
  "\<exists>v. run fd pid (MainEv True (Failing d) pevs # mevs) alive w = Inr (Returned (cleanup alive v))
     \<and> entries v pipe_file = Some (Fifo 432)"
proof -
  define w1 where "w1 = w\<lparr>state := ''MONITORING'',
       runner_dir := Some [pipe_file \<mapsto> Fifo 432,
         pid_file \<mapsto> File (Text (text_of (str_int (runner_pid w)))),
         status_file \<mapsto> File (Doc (status_data ''MONITORING'' None (Some ''Starting up'') w))]\<rparr>"
  define w4 where "w4 = update_status ''MONITORING'' None (Some ''Process started'')
       ((print (''[Runner] Starting: '' @ cmd w1) (w1\<lparr>master_fd := Some fd\<rparr>))
          \<lparr>process := Some pid\<rparr>)"
  define w6 where "w6 = (print (''[Runner] Monitoring PID '' @ str_int pid @ ''...'') w4)
       \<lparr>last_activity_time := clock (print (''[Runner] Monitoring PID '' @ str_int pid @ ''...'') w4)\<rparr>"
  define v where "v = advance (select_time (Failing d)) w6"
  have s: "setup_dirs w = Inr w1"
    unfolding w1_def by (rule setup_dirs_result)
  have m: "main_loop (MainEv True (Failing d) pevs # mevs) w6 = Returned v"
    by (simp add: drain_def v_def)
  have "run fd pid (MainEv True (Failing d) pevs # mevs) alive w
      = Inr (and_then (main_loop (MainEv True (Failing d) pevs # mevs) w6) (cleanup alive))"
    by (simp add: run_def s Let_def w6_def w4_def)
  then have r: "run fd pid (MainEv True (Failing d) pevs # mevs) alive w
      = Inr (Returned (cleanup alive v))"
    unfolding m by simp
  have "entries w1 pipe_file = Some (Fifo 432)"
    by (simp add: w1_def entries_def file_names_distinct)
  moreover have "entries w4 pipe_file
      = entries ((print (''[Runner] Starting: '' @ cmd w1) (w1\<lparr>master_fd := Some fd\<rparr>))
          \<lparr>process := Some pid\<rparr>) pipe_file"
    unfolding w4_def by (rule update_status_entries) (simp add: file_names_distinct)
  moreover have "\<dots> = entries w1 pipe_file"
    by (simp add: print_def entries_def)
  ultimately have "entries w4 pipe_file = Some (Fifo 432)"
    by simp
  then have "entries v pipe_file = Some (Fifo 432)"
    by (simp add: v_def w6_def advance_def print_def entries_def)
  with r show ?thesis by blast
qed

text \<open>
  Claim C6, as the code has it.
  \<^item> Pause loop: while the session is running, iterations whose read of the status
    file raises (no file, no JSON object), or finds any state but \<open>AI_DONE\<close>, never end
    the loop; they print no message and leave the session's state alone, and the loop
    goes on with the events that follow exactly as from the state the iterations left.
    An \<^verbatim>\<open>OSError\<close> of the PTY read is passed over in silence too: the iteration goes on
    as after a read that returned nothing.
  \<^item> Input gate: while the session is running, any number of turns that end in the
    handler (a failing \<^verbatim>\<open>open\<close>, a failing read) are each reported on the console
    and followed by a sleep of half a second, after which the gate serves the turns that
    follow; whatever the events, the gate does not leave its loop.
  \<^item> Main loop: an \<^verbatim>\<open>OSError\<close> of the PTY read is not retried. It leaves the loop by
    \<^verbatim>\<open>break\<close>; \<^verbatim>\<open>run\<close> then returns normally through \<^verbatim>\<open>cleanup\<close>, which
    clears the running flag, removes the input pipe and prints its last line.
\<close>

theorem transient_errors:
  "(running w \<and> read_fails evs w \<longrightarrow>
      wait_for_ai (evs @ evs') w = wait_for_ai evs' (fold pause_step evs w)
      \<and> running (fold pause_step evs w)
      \<and> state (fold pause_step evs w) = state w
      \<and> messages (fold pause_step evs w) = messages w)
   \<and> (running w \<and> \<not> answered evs w \<longrightarrow>
        wait_for_ai (evs @ evs') w = wait_for_ai evs' (fold pause_step evs w)
        \<and> messages (fold pause_step evs w) = messages w)
   \<and> wait_for_ai (PauseEv (Failing d) a dt # evs) w
       = wait_for_ai (PauseEv (Ready d []) a dt # evs) w
   \<and> console (pause_drain (Failing d) w) = console w
   \<and> (running w \<and> list_all gate_fails fs \<longrightarrow>
        gate_loop (fs @ es) w = gate_loop es ((gate_error ^^ length fs) w)
        \<and> running ((gate_error ^^ length fs) w)
        \<and> console ((gate_error ^^ length fs) w)
            = console w @ replicate (length fs) PrintGateError
        \<and> clock ((gate_error ^^ length fs) w) = clock w + real (length fs) * POLL_TIMEOUT
        \<and> pty_in ((gate_error ^^ length fs) w) = pty_in w)
   \<and> (running w \<longrightarrow> (\<exists>v. gate_loop es w = Pending v \<and> running v))
   \<and> main_loop (MainEv True (Failing d) pevs # mevs) w
       = Returned (advance (select_time (Failing d)) w)
   \<and> (\<exists>v. run fd pid (MainEv True (Failing d) pevs # mevs) alive w
              = Inr (Returned (cleanup alive v))
          \<and> \<not> running (cleanup alive v)
          \<and> entries (cleanup alive v) pipe_file = None
          \<and> last (console (cleanup alive v)) = Print ''[Runner] Done.'')"
proof -
  have p1: "wait_for_ai (evs @ evs') w = wait_for_ai evs' (fold pause_step evs w)
      \<and> messages (fold pause_step evs w) = messages w"
    if "running w" and "\<not> answered evs w"
    using that by (simp add: wait_unanswered messages_fold)
  have p2: "wait_for_ai (PauseEv (Failing d) a dt # evs) w
       = wait_for_ai (PauseEv (Ready d []) a dt # evs) w"
    by (simp add: pause_step_def pause_drain_failing)
  have p3: "console (pause_drain (Failing d) w) = console w"
    by (simp add: pause_drain_console)
  have p4: "gate_loop (fs @ es) w = gate_loop es ((gate_error ^^ length fs) w)
        \<and> running ((gate_error ^^ length fs) w)
        \<and> console ((gate_error ^^ length fs) w)
            = console w @ replicate (length fs) PrintGateError
        \<and> clock ((gate_error ^^ length fs) w) = clock w + real (length fs) * POLL_TIMEOUT
        \<and> pty_in ((gate_error ^^ length fs) w) = pty_in w"
    if "running w" and "list_all gate_fails fs"
    using that by (simp add: gate_loop_fails gate_error_funpow)
  have p5: "\<exists>v. gate_loop es w = Pending v \<and> running v" if "running w"
    using that by (rule gate_loop_stays)
  have p6: "main_loop (MainEv True (Failing d) pevs # mevs) w
       = Returned (advance (select_time (Failing d)) w)"
    by (simp add: drain_def)
  from run_read_error [of fd pid d pevs mevs alive w] obtain v where
    "run fd pid (MainEv True (Failing d) pevs # mevs) alive w = Inr (Returned (cleanup alive v))"
    and "entries v pipe_file = Some (Fifo 432)"
    by blast
  then have p7: "\<exists>v. run fd pid (MainEv True (Failing d) pevs # mevs) alive w
              = Inr (Returned (cleanup alive v))
          \<and> \<not> running (cleanup alive v)
          \<and> entries (cleanup alive v) pipe_file = None
          \<and> last (console (cleanup alive v)) = Print ''[Runner] Done.''"
    using cleanup_fields [of alive v] cleanup_unlinks [of v 432 alive] by blast
  have p0: "wait_for_ai (evs @ evs') w = wait_for_ai evs' (fold pause_step evs w)
      \<and> running (fold pause_step evs w)
      \<and> state (fold pause_step evs w) = state w
      \<and> messages (fold pause_step evs w) = messages w"
    if "running w" and "read_fails evs w"
    using that p1 read_fails_unanswered [of evs w] by (simp add: fold_pause_step_fields)
  from p0 p1 p2 p3 p4 p5 p6 p7 show ?thesis by blast
qed

theorem transient_errors_witness:
  "running session0
   \<and> read_fails [PauseEv (Failing 0) Remove 0, PauseEv Idle (Put (Text [])) 0] session0
   \<and> state (final (wait_for_ai
        ([PauseEv (Failing 0) Remove 0, PauseEv Idle (Put (Text [])) 0]
           @ [PauseEv Idle (Put (Doc (JObj [(''state'', JStr ''AI_DONE'')]))) 0]) session0))
       = ''MONITORING''
   \<and> list_all gate_fails [OpenFails, Writer [ReadRaises]]
   \<and> console (final (gate_loop ([OpenFails, Writer [ReadRaises]] @ []) session0))
       = [PrintGateError, PrintGateError]"
proof -
  define evs where "evs = [PauseEv (Failing 0) Remove 0, PauseEv Idle (Put (Text [])) 0]"
  define ev where "ev = PauseEv Idle (Put (Doc (JObj [(''state'', JStr ''AI_DONE'')]))) 0"
  define fs where "fs = [OpenFails, Writer [ReadRaises]]"
  have h1: "running session0" and c0: "console session0 = []"
    by (simp_all add: session0_def)
  have h2: "read_fails evs session0"
    by (simp add: evs_def pause_step_def advance_def apply_agent_def ai_done_def json_load_def
        entries_def)
  have h3: "list_all gate_fails fs"
    by (simp add: fs_def)
  note t = transient_errors [where w = session0 and evs = evs and evs' = "[ev]" and fs = fs
      and es = "[]"]
  from t h1 h2 have a: "wait_for_ai (evs @ [ev]) session0
        = wait_for_ai [ev] (fold pause_step evs session0)"
    and r: "running (fold pause_step evs session0)"
    by blast+
  have "ai_done (pause_step ev (fold pause_step evs session0)) = Some True"
    by (simp add: ev_def pause_step_def advance_def apply_agent_def ai_done_def json_load_def
        entries_def)
  with r have "wait_for_ai [ev] (fold pause_step evs session0)
      = Returned (resume (pause_step ev (fold pause_step evs session0)))"
    by (simp add: Let_def)
  then have s: "state (final (wait_for_ai (evs @ [ev]) session0)) = ''MONITORING''"
    unfolding a by (simp add: resume_fields)
  from t h1 h3 have g: "gate_loop (fs @ []) session0
        = gate_loop [] ((gate_error ^^ length fs) session0)"
    and gr: "running ((gate_error ^^ length fs) session0)"
    and gc: "console ((gate_error ^^ length fs) session0)
        = console session0 @ replicate (length fs) PrintGateError"
    by blast+
  from gr have "gate_loop [] ((gate_error ^^ length fs) session0)
      = Pending ((gate_error ^^ length fs) session0)"
    by simp
  then have "console (final (gate_loop (fs @ []) session0))
      = console session0 @ replicate (length fs) PrintGateError"
    unfolding g by (simp add: gc)
  then have c: "console (final (gate_loop (fs @ []) session0)) = [PrintGateError, PrintGateError]"
    unfolding c0 by (simp add: fs_def)
  from h1 h2 s h3 c show ?thesis
    unfolding evs_def ev_def fs_def by blast
qed

text \<open>
  The claim as stated fails in the main loop: from \<open>session0\<close>, a PTY read that raises
  ends the loop, the output of the next poll is never drained, and nothing was printed.
\<close>

theorem read_error_ends_main_loop:
  "main_loop [MainEv True (Failing 0) [], MainEv True (Ready 0 [0x68, 0x69]) []] session0
     = Returned session0
   \<and> console session0 = []"
  by (simp add: drain_def advance_def session0_def POLL_TIMEOUT_def)

subsection \<open>The input gate\<close>

text \<open>Comparisons of bytes, read as comparisons of numbers.\<close>

lemma byte_cmp:
  fixes b :: byte
  shows "(b < 0x80) = (unat b < 128)" "(b < 0xC2) = (unat b < 194)"
    "(b < 0xE0) = (unat b < 224)" "(b < 0xF0) = (unat b < 240)" "(b < 0xF5) = (unat b < 245)"
    "(b < 0xA0) = (unat b < 160)" "(b < 0x90) = (unat b < 144)"
    "(b = 0xE0) = (unat b = 224)" "(b = 0xED) = (unat b = 237)"
    "(b = 0xF0) = (unat b = 240)" "(b = 0xF4) = (unat b = 244)"
    "cont b = (128 \<le> unat b \<and> unat b \<le> 191)"
    "(b = 13) = (unat b = 13)"
  by (simp_all add: word_less_nat_alt word_le_nat_alt word_unat_eq_iff cont_def)

lemma digit_split:
  fixes q r m :: nat
  assumes "r < m"
  shows "(q * m + r) div m = q" and "(q * m + r) mod m = r"
  using assms by simp_all

lemma enc1: "x < 128 \<Longrightarrow> encode_cp x = [of_nat x]"
  by (simp add: encode_cp_def)

lemma enc2:
  assumes "194 \<le> x" "x < 224" "128 \<le> y" "y \<le> 191"
  shows "encode_cp ((x - 192) * 64 + (y - 128)) = [of_nat x, of_nat y]"
proof -
  define a where "a = x - 192"
  define d where "d = y - 128"
  define c where "c = a * 64 + d"
  from assms have r: "2 \<le> a" "a < 32" "d < 64" "x = 192 + a" "y = 128 + d"
    by (simp_all add: a_def d_def)
  have "c div 64 = a" "c mod 64 = d"
    unfolding c_def using r(3) by (rule digit_split)+
  moreover from r have "128 \<le> c" "c < 2048"
    unfolding c_def by linarith+
  ultimately show ?thesis
    unfolding a_def [symmetric] d_def [symmetric] c_def [symmetric]
    by (simp add: encode_cp_def r)
qed

lemma enc3:
  assumes "224 \<le> x" "x < 240" "128 \<le> y" "y \<le> 191" "128 \<le> z" "z \<le> 191"
    and "x = 224 \<longrightarrow> 160 \<le> y"
  shows "encode_cp ((x - 224) * 4096 + (y - 128) * 64 + (z - 128)) = [of_nat x, of_nat y, of_nat z]"
proof -
  define a where "a = x - 224"
  define d where "d = y - 128"
  define e where "e = z - 128"
  define c where "c = a * 4096 + d * 64 + e"
  from assms have r: "a < 16" "d < 64" "e < 64" "x = 224 + a" "y = 128 + d" "z = 128 + e"
    "a = 0 \<longrightarrow> 32 \<le> d"
    by (auto simp: a_def d_def e_def)
  have c1: "c = (a * 64 + d) * 64 + e" and c2: "c = a * 4096 + (d * 64 + e)"
    by (simp_all add: c_def)
  have "c div 64 = a * 64 + d" "c mod 64 = e"
    unfolding c1 using r(3) by (rule digit_split)+
  moreover have "(a * 64 + d) mod 64 = d"
    using r(2) by (rule digit_split)
  moreover have "d * 64 + e < 4096"
    using r by linarith
  then have "c div 4096 = a"
    unfolding c2 by (rule digit_split)
  moreover from r have "2048 \<le> c" "c < 65536"
    unfolding c_def by linarith+
  ultimately show ?thesis
    unfolding a_def [symmetric] d_def [symmetric] e_def [symmetric] c_def [symmetric]
    by (simp add: encode_cp_def r)
qed

lemma enc4:
  assumes "240 \<le> x" "x < 245" "128 \<le> y" "y \<le> 191" "128 \<le> z" "z \<le> 191"
    "128 \<le> u" "u \<le> 191" and "x = 240 \<longrightarrow> 144 \<le> y"
  shows "encode_cp ((x - 240) * 262144 + (y - 128) * 4096 + (z - 128) * 64 + (u - 128))
     = [of_nat x, of_nat y, of_nat z, of_nat u]"
proof -
  define a where "a = x - 240"
  define d where "d = y - 128"
  define e where "e = z - 128"
  define f where "f = u - 128"
  define c where "c = a * 262144 + d * 4096 + e * 64 + f"
  from assms have r: "a < 5" "d < 64" "e < 64" "f < 64"
    "x = 240 + a" "y = 128 + d" "z = 128 + e" "u = 128 + f" "a = 0 \<longrightarrow> 16 \<le> d"
    by (auto simp: a_def d_def e_def f_def)
  have c1: "c = ((a * 64 + d) * 64 + e) * 64 + f"
    and c2: "c = (a * 64 + d) * 4096 + (e * 64 + f)"
    and c3: "c = a * 262144 + (d * 4096 + e * 64 + f)"
    by (simp_all add: c_def)
  have "c div 64 = (a * 64 + d) * 64 + e" "c mod 64 = f"
    unfolding c1 using r(4) by (rule digit_split)+
  moreover have "((a * 64 + d) * 64 + e) mod 64 = e"
    using r(3) by (rule digit_split)
  moreover have "e * 64 + f < 4096"
    using r by linarith
  then have "c div 4096 = a * 64 + d"
    unfolding c2 by (rule digit_split)
  moreover have "(a * 64 + d) mod 64 = d"
    using r(2) by (rule digit_split)
  moreover have "d * 4096 + e * 64 + f < 262144"
    using r by linarith
  then have "c div 262144 = a"
    unfolding c3 by (rule digit_split)
  moreover from r have "65536 \<le> c"
    unfolding c_def by linarith
  ultimately show ?thesis
    unfolding a_def [symmetric] d_def [symmetric] e_def [symmetric] f_def [symmetric]
      c_def [symmetric]
    by (simp add: encode_cp_def r)
qed

lemma enc3_not_surrogate:
  fixes x y z :: nat
  assumes "224 \<le> x" "x < 240" "128 \<le> y" "y \<le> 191" "128 \<le> z" "z \<le> 191"
    and "x = 237 \<longrightarrow> y < 160"
  shows "\<not> (55296 \<le> (x - 224) * 4096 + (y - 128) * 64 + (z - 128)
           \<and> (x - 224) * 4096 + (y - 128) * 64 + (z - 128) \<le> 57343)"
proof -
  consider "x < 237" | "x = 237" | "237 < x" by linarith
  then show ?thesis
  proof cases
    case 1
    with assms show ?thesis by linarith
  next
    case 2
    with assms show ?thesis by linarith
  next
    case 3
    with assms show ?thesis by linarith
  qed
qed

text \<open>The shape of a buffer that begins with a well-formed sequence of two, three or four bytes.\<close>

lemma utf8_next_two:
  assumes "194 \<le> unat b" "unat b < 224" "utf8_next (b # bs1) = Cp c n"
  obtains c2 bs2 where "bs1 = c2 # bs2" "cont c2"
    "c = (unat b - 192) * 64 + (unat c2 - 128)" "n = 2"
proof -
  from assms obtain c2 bs2 where 1: "bs1 = c2 # bs2"
    by (cases bs1) (simp_all add: byte_cmp(1-5))
  from assms 1 have 2: "cont c2"
    by (simp add: byte_cmp(1-5) split: if_splits)
  from assms 1 2 have "c = (unat b - 192) * 64 + (unat c2 - 128)" "n = 2"
    by (simp_all add: byte_cmp(1-5))
  with 1 2 show ?thesis by (rule that)
qed

lemma utf8_next_three:
  assumes "224 \<le> unat b" "unat b < 240" "utf8_next (b # bs1) = Cp c n"
  obtains c2 c3 bs3 where "bs1 = c2 # c3 # bs3" "cont c2" "cont c3"
    "\<not> (if c2 < 0xA0 then b = 0xE0 else b = 0xED)"
    "c = (unat b - 224) * 4096 + (unat c2 - 128) * 64 + (unat c3 - 128)" "n = 3"
proof -
  from assms obtain c2 bs2 where 1: "bs1 = c2 # bs2"
    by (cases bs1) (simp_all add: byte_cmp(1-5))
  have 2: "cont c2 \<and> \<not> (if c2 < 0xA0 then b = 0xE0 else b = 0xED)"
  proof (rule ccontr)
    assume "\<not> ?thesis"
    then have "\<not> cont c2 \<or> (if c2 < 0xA0 then b = 0xE0 else b = 0xED)" by blast
    then have "(if \<not> cont c2 \<or> (if c2 < 0xA0 then b = 0xE0 else b = 0xED) then Bad 1 else d) = Bad 1"
      for d by (simp only: if_True)
    with assms 1 show False by (simp add: byte_cmp(1-5))
  qed
  then have n2: "\<not> (\<not> cont c2 \<or> (if c2 < 0xA0 then b = 0xE0 else b = 0xED))" by blast
  from assms 1 n2 obtain c3 bs3 where 3: "bs2 = c3 # bs3"
    by (cases bs2) (simp_all add: byte_cmp(1-5))
  from assms 1 n2 3 have 4: "cont c3"
    by (simp add: byte_cmp(1-5) split: if_splits)
  from assms 1 n2 3 4
  have "c = (unat b - 224) * 4096 + (unat c2 - 128) * 64 + (unat c3 - 128)" "n = 3"
    by (simp_all add: byte_cmp(1-5))
  with 1 2 3 4 show ?thesis by (intro that [of c2 c3 bs3]) simp_all
qed

lemma utf8_next_four:
  assumes "240 \<le> unat b" "unat b < 245" "utf8_next (b # bs1) = Cp c n"
  obtains c2 c3 c4 bs4 where "bs1 = c2 # c3 # c4 # bs4" "cont c2" "cont c3" "cont c4"
    "\<not> (if c2 < 0x90 then b = 0xF0 else b = 0xF4)"
    "c = (unat b - 240) * 262144 + (unat c2 - 128) * 4096 + (unat c3 - 128) * 64
         + (unat c4 - 128)" "n = 4"
proof -
  from assms obtain c2 bs2 where 1: "bs1 = c2 # bs2"
    by (cases bs1) (simp_all add: byte_cmp(1-5))
  have 2: "cont c2 \<and> \<not> (if c2 < 0x90 then b = 0xF0 else b = 0xF4)"
  proof (rule ccontr)
    assume "\<not> ?thesis"
    then have "\<not> cont c2 \<or> (if c2 < 0x90 then b = 0xF0 else b = 0xF4)" by blast
    then have "(if \<not> cont c2 \<or> (if c2 < 0x90 then b = 0xF0 else b = 0xF4) then Bad 1 else d) = Bad 1"
      for d by (simp only: if_True)
    with assms 1 show False by (simp add: byte_cmp(1-5))
  qed
  then have n2: "\<not> (\<not> cont c2 \<or> (if c2 < 0x90 then b = 0xF0 else b = 0xF4))" by blast
  from assms 1 n2 obtain c3 bs3 where 3: "bs2 = c3 # bs3"
    by (cases bs2) (simp_all add: byte_cmp(1-5))
  from assms 1 n2 3 have 4: "cont c3"
    by (simp add: byte_cmp(1-5) split: if_splits)
  from assms 1 n2 3 4 obtain c4 bs4 where 5: "bs3 = c4 # bs4"
    by (cases bs3) (simp_all add: byte_cmp(1-5))
  from assms 1 n2 3 4 5 have 6: "cont c4"
    by (simp add: byte_cmp(1-5) split: if_splits)
  from assms 1 n2 3 4 5 6
  have "c = (unat b - 240) * 262144 + (unat c2 - 128) * 4096 + (unat c3 - 128) * 64
         + (unat c4 - 128)" "n = 4"
    by (simp_all add: byte_cmp(1-5))
  with 1 2 3 4 5 6 show ?thesis by (intro that [of c2 c3 c4 bs4]) simp_all
qed

lemma utf8_next_Cp:
  assumes "utf8_next bs = Cp c n"
  shows "encode_cp c = take n bs \<and> 0 < n \<and> n \<le> length bs
     \<and> \<not> (55296 \<le> c \<and> c \<le> 57343) \<and> (c = 13 \<longrightarrow> 13 \<in> set bs)"
proof (cases bs)
  case Nil
  with assms show ?thesis by simp
next
  case (Cons b bs1)
  define x where "x = unat b"
  note u = assms [unfolded Cons]
  consider "x < 128" | "128 \<le> x \<and> x < 194" | "194 \<le> x \<and> x < 224"
    | "224 \<le> x \<and> x < 240" | "240 \<le> x \<and> x < 245" | "245 \<le> x"
    by linarith
  then show ?thesis
  proof cases
    case 1
    with u have "c = x" "n = 1"
      by (simp_all add: byte_cmp(1-5) x_def)
    moreover from 1 have "encode_cp x = [b]"
      by (simp add: enc1 x_def)
    moreover have "x = 13 \<longrightarrow> b = 13"
      by (simp add: byte_cmp x_def)
    ultimately show ?thesis using 1 Cons by simp
  next
    case 2
    with u show ?thesis by (simp add: byte_cmp(1-5) x_def)
  next
    case 3
    then have r: "194 \<le> unat b" "unat b < 224" by (simp_all add: x_def)
    from r u obtain c2 bs2 where b: "bs1 = c2 # bs2" "cont c2"
      "c = (unat b - 192) * 64 + (unat c2 - 128)" "n = 2"
      by (rule utf8_next_two)
    from b(2) have k: "128 \<le> unat c2" "unat c2 \<le> 191" by (simp_all add: byte_cmp)
    have "encode_cp c = [of_nat (unat b), of_nat (unat c2)]"
      unfolding b(3) using r k by (rule enc2)
    then have "encode_cp c = [b, c2]" by simp
    moreover from r k b(3) have "128 \<le> c" "c < 2048" by linarith+
    ultimately show ?thesis using Cons b by simp
  next
    case 4
    then have r: "224 \<le> unat b" "unat b < 240" by (simp_all add: x_def)
    from r u obtain c2 c3 bs3 where b: "bs1 = c2 # c3 # bs3" "cont c2" "cont c3"
      "\<not> (if c2 < 0xA0 then b = 0xE0 else b = 0xED)"
      "c = (unat b - 224) * 4096 + (unat c2 - 128) * 64 + (unat c3 - 128)" "n = 3"
      by (rule utf8_next_three)
    from b(2,3) have k: "128 \<le> unat c2" "unat c2 \<le> 191" "128 \<le> unat c3" "unat c3 \<le> 191"
      by (simp_all add: byte_cmp)
    from b(4) have k2: "unat b = 224 \<longrightarrow> 160 \<le> unat c2" "unat b = 237 \<longrightarrow> unat c2 < 160"
      by (auto simp: byte_cmp split: if_splits)
    have "encode_cp c = [of_nat (unat b), of_nat (unat c2), of_nat (unat c3)]"
      unfolding b(5) using r k k2(1) by (rule enc3)
    then have "encode_cp c = [b, c2, c3]" by simp
    moreover have "\<not> (55296 \<le> c \<and> c \<le> 57343)"
      unfolding b(5) using r k k2(2) by (rule enc3_not_surrogate)
    moreover from r k k2 b(5) have "2048 \<le> c" by linarith
    ultimately show ?thesis using Cons b by simp
  next
    case 5
    then have r: "240 \<le> unat b" "unat b < 245" by (simp_all add: x_def)
    from r u obtain c2 c3 c4 bs4 where b: "bs1 = c2 # c3 # c4 # bs4"
      "cont c2" "cont c3" "cont c4"
      "\<not> (if c2 < 0x90 then b = 0xF0 else b = 0xF4)"
      "c = (unat b - 240) * 262144 + (unat c2 - 128) * 4096 + (unat c3 - 128) * 64
         + (unat c4 - 128)" "n = 4"
      by (rule utf8_next_four)
    from b(2,3,4) have k: "128 \<le> unat c2" "unat c2 \<le> 191" "128 \<le> unat c3" "unat c3 \<le> 191"
      "128 \<le> unat c4" "unat c4 \<le> 191"
      by (simp_all add: byte_cmp)
    from b(5) have k2: "unat b = 240 \<longrightarrow> 144 \<le> unat c2"
      by (auto simp: byte_cmp split: if_splits)
    have "encode_cp c = [of_nat (unat b), of_nat (unat c2), of_nat (unat c3), of_nat (unat c4)]"
      unfolding b(6) using r k k2 by (rule enc4)
    then have "encode_cp c = [b, c2, c3, c4]" by simp
    moreover from r k k2 b(6) have "65536 \<le> c" by linarith
    ultimately show ?thesis using Cons b by simp
  next
    case 6
    with u show ?thesis by (simp add: byte_cmp(1-5) x_def)
  qed
qed

text \<open>Encoding what the strict decoder returned gives the bytes back.\<close>

lemma decode_strict_encode:
  "decode_strict bs = Some t \<Longrightarrow>
     concat (map encode_cp t) = bs
     \<and> (\<forall>c \<in> set t. \<not> (55296 \<le> c \<and> c \<le> 57343))
     \<and> (13 \<in> set t \<longrightarrow> 13 \<in> set bs)"
proof (induction bs arbitrary: t rule: decode_strict.induct)
  case (1 bs)
  show ?case
  proof (cases "bs = []")
    case True
    with "1.prems" show ?thesis by (simp add: decode_strict.simps)
  next
    case False
    with "1.prems" obtain c n t' where u: "utf8_next bs = Cp c n"
      and d: "decode_strict (drop n bs) = Some t'" and t: "t = c # t'"
      by (subst (asm) decode_strict.simps) (auto split: dec.splits)
    from utf8_next_Cp [OF u] have e: "encode_cp c = take n bs"
      and s: "\<not> (55296 \<le> c \<and> c \<le> 57343)" and r: "c = 13 \<longrightarrow> 13 \<in> set bs"
      by simp_all
    from "1.IH" [OF False u d]
    have ih: "concat (map encode_cp t') = drop n bs"
      "\<forall>c \<in> set t'. \<not> (55296 \<le> c \<and> c \<le> 57343)"
      "13 \<in> set t' \<longrightarrow> 13 \<in> set (drop n bs)"
      by simp_all
    have "concat (map encode_cp t) = take n bs @ drop n bs"
      by (simp add: t e ih(1))
    then have "concat (map encode_cp t) = bs" by simp
    moreover from s ih(2) have "\<forall>c \<in> set t. \<not> (55296 \<le> c \<and> c \<le> 57343)"
      by (simp add: t)
    moreover from r ih(3) have "13 \<in> set t \<longrightarrow> 13 \<in> set bs"
      by (auto simp: t dest: in_set_dropD)
    ultimately show ?thesis by blast
  qed
qed

lemma universal_newlines_id: "13 \<notin> set t \<Longrightarrow> universal_newlines t = t"
  by (induction t rule: universal_newlines.induct) auto

lemma pieces_concat:
  "0 < n \<Longrightarrow> concat (pieces n xs) = xs
     \<and> (\<forall>p \<in> set (pieces n xs). p \<noteq> [] \<and> set p \<subseteq> set xs)"
proof (induction n xs rule: pieces.induct)
  case (1 n xs)
  show ?case
  proof (cases "xs = []")
    case True
    then show ?thesis by (simp add: pieces.simps)
  next
    case False
    with "1.prems" have p: "pieces n xs = take n xs # pieces n (drop n xs)"
      by (subst pieces.simps) simp
    from "1.IH" "1.prems" False
    have ih: "concat (pieces n (drop n xs)) = drop n xs"
      "\<forall>p \<in> set (pieces n (drop n xs)). p \<noteq> [] \<and> set p \<subseteq> set (drop n xs)"
      by simp_all
    have "take n xs \<noteq> []" using False "1.prems" by simp
    moreover have "set (take n xs) \<subseteq> set xs" by (rule set_take_subset)
    moreover have "set (drop n xs) \<subseteq> set xs" by (rule set_drop_subset)
    ultimately show ?thesis using ih by (auto simp: p)
  qed
qed

lemma encode_utf8_clean:
  "\<forall>c \<in> set t. \<not> (55296 \<le> c \<and> c \<le> 57343) \<Longrightarrow>
     encode_utf8 t = Some (concat (map encode_cp t))"
  by (auto simp: encode_utf8_def)

lemma gate_reads_chunks:
  assumes "running w" and "master_fd w \<noteq> None"
    and "\<forall>p \<in> set ps. p \<noteq> [] \<and> (\<forall>c \<in> set p. \<not> (55296 \<le> c \<and> c \<le> 57343))"
  shows "\<exists>w'. gate_reads (map Chunk ps @ [Chunk []]) w = Closed w'
     \<and> pty_in w' = pty_in w @ concat (map encode_cp (concat ps))
     \<and> running w' \<and> master_fd w' = master_fd w"
  using assms
proof (induction ps arbitrary: w)
  case Nil
  then show ?case by simp
next
  case (Cons p ps)
  from Cons.prems(2) obtain fd where fd: "master_fd w = Some fd" by blast
  from Cons.prems(3) have ne: "p \<noteq> []"
    and enc: "encode_utf8 p = Some (concat (map encode_cp p))"
    by (simp_all add: encode_utf8_clean)
  define w1 where "w1 = inject p (concat (map encode_cp p)) w"
  have f: "running w1" "master_fd w1 \<noteq> None" "master_fd w1 = master_fd w"
    "pty_in w1 = pty_in w @ concat (map encode_cp p)"
    using Cons.prems(1,2) by (simp_all add: w1_def inject_def)
  from Cons.prems(3) have "\<forall>q \<in> set ps. q \<noteq> [] \<and> (\<forall>c \<in> set q. \<not> (55296 \<le> c \<and> c \<le> 57343))"
    by simp
  from Cons.IH [OF f(1,2) this] obtain w' where
    w': "gate_reads (map Chunk ps @ [Chunk []]) w1 = Closed w'"
    "pty_in w' = pty_in w1 @ concat (map encode_cp (concat ps))"
    "running w'" "master_fd w' = master_fd w1"
    by blast
  have "gate_reads (map Chunk (p # ps) @ [Chunk []]) w
      = gate_reads (map Chunk ps @ [Chunk []]) w1"
    using Cons.prems(1) ne enc fd by (simp add: w1_def)
  with w' f show ?case by simp
qed

lemma gate_reads_session:
  assumes "running w" and "master_fd w \<noteq> None"
    and "decode_strict bs \<noteq> None" and "13 \<notin> set bs"
  shows "\<exists>w'. gate_reads (text_reads bs) w = Closed w'
     \<and> pty_in w' = pty_in w @ bs \<and> running w' \<and> master_fd w' = master_fd w"
proof -
  from assms(3) obtain t where t: "decode_strict bs = Some t" by blast
  from decode_strict_encode [OF t] assms(4)
  have e: "concat (map encode_cp t) = bs"
    and s: "\<forall>c \<in> set t. \<not> (55296 \<le> c \<and> c \<le> 57343)" and n: "13 \<notin> set t"
    by blast+
  have r: "text_reads bs = map Chunk (pieces 1024 t) @ [Chunk []]"
    by (simp add: text_reads_def t universal_newlines_id [OF n])
  have p: "concat (pieces 1024 t) = t"
    "\<forall>p \<in> set (pieces 1024 t). p \<noteq> [] \<and> set p \<subseteq> set t"
    using pieces_concat [of 1024 t] by simp_all
  from p(2) s
  have "\<forall>p \<in> set (pieces 1024 t). p \<noteq> [] \<and> (\<forall>c \<in> set p. \<not> (55296 \<le> c \<and> c \<le> 57343))"
    by blast
  from gate_reads_chunks [OF assms(1,2) this] show ?thesis
    unfolding r p(1) e .
qed

lemma gate_loop_sessions:
  assumes "running w" and "master_fd w \<noteq> None"
    and "\<forall>bs \<in> set bss. decode_strict bs \<noteq> None \<and> 13 \<notin> set bs"
  shows "\<exists>w'. gate_loop (map (\<lambda>bs. Writer (text_reads bs)) bss) w = Pending w'
     \<and> pty_in w' = pty_in w @ concat bss"
  using assms
proof (induction bss arbitrary: w)
  case Nil
  then show ?case by simp
next
  case (Cons bs bss)
  from Cons.prems(3) have "decode_strict bs \<noteq> None" "13 \<notin> set bs" by simp_all
  from gate_reads_session [OF Cons.prems(1,2) this] obtain w1 where
    w1: "gate_reads (text_reads bs) w = Closed w1" "pty_in w1 = pty_in w @ bs"
    "running w1" "master_fd w1 = master_fd w"
    by blast
  from w1(4) Cons.prems(2) have m: "master_fd w1 \<noteq> None" by simp
  from Cons.prems(3) have "\<forall>bs \<in> set bss. decode_strict bs \<noteq> None \<and> 13 \<notin> set bs" by simp
  from Cons.IH [OF w1(3) m this] obtain w' where
    "gate_loop (map (\<lambda>bs. Writer (text_reads bs)) bss) w1 = Pending w'"
    "pty_in w' = pty_in w1 @ concat bss"
    by blast
  with w1 Cons.prems(1) show ?case by simp
qed

text \<open>
  Claim C5, as the code has it. The gate reads the pipe as text and writes the UTF-8
  encoding of what it read to the PTY master. For writers that each send bytes that
  are well-formed UTF-8 and hold no carriage return, and then disconnect, the bytes
  written to the PTY master are the writers' bytes, unchanged and in order, one
  connection after the other, for any number of connections; afterwards the gate is
  waiting for the next writer.
\<close>

theorem input_gate_forwards_text:
  assumes "running w" and "master_fd w \<noteq> None"
    and "\<forall>bs \<in> set bss. decode_strict bs \<noteq> None \<and> 13 \<notin> set bs"
  shows "\<exists>w'. input_gate_thread (map (\<lambda>bs. Writer (text_reads bs)) bss) w = Pending w'
     \<and> pty_in w' = pty_in w @ concat bss"
proof -
  define w0 where "w0 = print (''[Runner] Input gate listening: '' @ input_pipe w) w"
  have "running w0" "master_fd w0 \<noteq> None" "pty_in w0 = pty_in w"
    using assms(1,2) by (simp_all add: w0_def print_def)
  with gate_loop_sessions [of w0 bss] assms(3) show ?thesis
    by (simp add: input_gate_thread_def w0_def)
qed

theorem input_gate_forwards_text_witness:
  "running session0 \<and> master_fd session0 \<noteq> None
   \<and> decode_strict [0x79, 0x0A] \<noteq> None \<and> 13 \<notin> set [0x79, 0x0A :: byte]
   \<and> decode_strict [0x03] \<noteq> None \<and> 13 \<notin> set [0x03 :: byte]
   \<and> pty_in (final (input_gate_thread
         [Writer (text_reads [0x79, 0x0A]), Writer (text_reads [0x03])] session0))
       = [0x79, 0x0A, 0x03]"
proof -
  have h1: "running session0" and h2: "master_fd session0 \<noteq> None"
    and p: "pty_in session0 = []"
    by (simp_all add: session0_def)
  have d1: "decode_strict [0x79, 0x0A] \<noteq> None" and d2: "decode_strict [0x03] \<noteq> None"
    by (simp_all add: decode_strict.simps)
  have n1: "13 \<notin> set [0x79, 0x0A :: byte]" and n2: "13 \<notin> set [0x03 :: byte]"
    by simp_all
  from d1 d2 n1 n2
  have h3: "\<forall>bs \<in> set [[0x79, 0x0A], [0x03 :: byte]]. decode_strict bs \<noteq> None \<and> 13 \<notin> set bs"
    by simp
  from input_gate_forwards_text [OF h1 h2 h3] obtain w' where
    "input_gate_thread [Writer (text_reads [0x79, 0x0A]), Writer (text_reads [0x03])] session0
       = Pending w'"
    and "pty_in w' = pty_in session0 @ concat [[0x79, 0x0A], [0x03]]"
    by auto
  with p have "pty_in (final (input_gate_thread
         [Writer (text_reads [0x79, 0x0A]), Writer (text_reads [0x03])] session0))
       = [0x79, 0x0A, 0x03]"
    by simp
  with h1 h2 d1 d2 n1 n2 show ?thesis by blast
qed

text \<open>
  The claim as stated, for every sequence of bytes, fails: a writer that sends the one
  byte 13 (carriage return) makes the gate write the byte 10 to the PTY master, and of a
  writer that sends the one byte 255, which is not UTF-8, nothing is written.
\<close>

theorem input_gate_not_verbatim:
  "pty_in (final (input_gate_thread [Writer (text_reads [0x0D])] session0)) = [0x0A]
   \<and> pty_in (final (input_gate_thread [Writer (text_reads [0xFF])] session0)) = []"
proof -
  have "decode_strict [0x0D] = Some [13]"
    by (simp add: decode_strict.simps)
  moreover have "decode_strict [0xFF] = None"
    by (simp add: decode_strict.simps)
  moreover have "pieces 1024 [10::nat] = [[10]]"
    by (simp add: pieces.simps)
  moreover have "encode_utf8 [10] = Some [0x0A]"
    by (simp add: encode_utf8_def encode_cp_def)
  ultimately show ?thesis
    by (simp add: input_gate_thread_def text_reads_def print_def session0_def inject_def
        gate_error_def advance_def)
qed

end
